theory Spec2Isabelle
  imports Main "HOL-Library.Word" "HOL-Library.Log_Nat"
begin

unbundle bit_operations_syntax

section \<open>IEEE-754 binary64 values, as the platform of vecmath.h provides them\<close>

text \<open>
  A C \<open>double\<close> is its 64-bit pattern: bit 63 is the sign, bits 62..52 the biased
  exponent, bits 51..0 the fraction. Every finite double is an integer multiple of
  \<open>2^-1074\<close>, so the exact value of a double is kept as an integer number of such
  units: \<open>mag\<close> is the magnitude and \<open>sval\<close> the signed value. An infinity has
  magnitude \<open>2^2098\<close>, above every finite one. Arithmetic is round-to-nearest,
  ties-to-even, evaluated in double precision (no extended precision, no fused
  multiply-add). Every NaN result is the one quiet NaN \<open>dnan\<close>: payloads are not
  modelled.
\<close>

type_synonym double = "64 word"

definition sign_of :: "double \<Rightarrow> bool" where
  "sign_of w \<longleftrightarrow> 2 ^ 63 \<le> uint w"

definition expo_of :: "double \<Rightarrow> nat" where
  "expo_of w = nat (uint w div 2 ^ 52 mod 2 ^ 11)"

definition frac_of :: "double \<Rightarrow> int" where
  "frac_of w = uint w mod 2 ^ 52"

definition mk_double :: "bool \<Rightarrow> nat \<Rightarrow> int \<Rightarrow> double" where
  "mk_double s e f = word_of_int ((if s then 2 ^ 63 else 0) + int e * 2 ^ 52 + f)"

definition is_nan :: "double \<Rightarrow> bool" where
  "is_nan w \<longleftrightarrow> expo_of w = 2047 \<and> frac_of w \<noteq> 0"

definition is_inf :: "double \<Rightarrow> bool" where
  "is_inf w \<longleftrightarrow> expo_of w = 2047 \<and> frac_of w = 0"

definition is_finite :: "double \<Rightarrow> bool" where
  "is_finite w \<longleftrightarrow> expo_of w < 2047"

definition mag :: "double \<Rightarrow> int" where
  "mag w = (if expo_of w = 0 then frac_of w
            else (2 ^ 52 + frac_of w) * 2 ^ (expo_of w - 1))"

definition sval :: "double \<Rightarrow> int" where
  "sval w = (if sign_of w then - mag w else mag w)"

definition dnan :: double where
  "dnan = mk_double False 2047 (2 ^ 51)"

definition dinf :: "bool \<Rightarrow> double" where
  "dinf s = mk_double s 2047 0"

definition dzero :: "bool \<Rightarrow> double" where
  "dzero s = mk_double s 0 0"

text \<open>The double of sign \<open>s\<close> and magnitude \<open>M\<close> (in units of \<open>2^-1074\<close>), for a
  magnitude that is representable; a magnitude of \<open>2^2098\<close> or more is an infinity.\<close>

definition of_mag :: "bool \<Rightarrow> int \<Rightarrow> double" where
  "of_mag s M =
     (if M < 2 ^ 52 then mk_double s 0 M
      else let e = nat (bitlen M - 52) in
        if 2047 \<le> e then dinf s
        else mk_double s e (M div 2 ^ (e - 1) - 2 ^ 52))"

text \<open>\<open>rne_div N D\<close> is the integer nearest to \<open>N / D\<close>, a tie going to the even one.\<close>

definition rne_div :: "int \<Rightarrow> int \<Rightarrow> int" where
  "rne_div N D =
     (let q = N div D; r = N mod D in
      if 2 * r < D then q
      else if D < 2 * r then q + 1
      else if even q then q else q + 1)"

text \<open>Rounding the non-negative rational \<open>N / D\<close> (in units of \<open>2^-1074\<close>) to the
  nearest magnitude with a 53-bit significand: below \<open>2^53\<close> the spacing is one unit
  (subnormals and the first binade), above it the spacing is \<open>2^sh\<close>.\<close>

definition round_mag :: "int \<Rightarrow> int \<Rightarrow> int" where
  "round_mag N D =
     (let sh = nat (bitlen (N div D) - 53) in rne_div N (D * 2 ^ sh) * 2 ^ sh)"

definition round_double :: "bool \<Rightarrow> int \<Rightarrow> int \<Rightarrow> double" where
  "round_double s N D = of_mag s (round_mag N D)"

definition dneg :: "double \<Rightarrow> double" where
  "dneg w = mk_double (\<not> sign_of w) (expo_of w) (frac_of w)"

definition dadd :: "double \<Rightarrow> double \<Rightarrow> double" where
  "dadd x y =
     (if is_nan x \<or> is_nan y then dnan
      else if is_inf x then (if is_inf y \<and> sign_of x \<noteq> sign_of y then dnan else x)
      else if is_inf y then y
      else let s = sval x + sval y in
        if s = 0 then dzero (sign_of x \<and> sign_of y)
        else round_double (s < 0) \<bar>s\<bar> 1)"

definition dsub :: "double \<Rightarrow> double \<Rightarrow> double" where
  "dsub x y = dadd x (dneg y)"

definition dmul :: "double \<Rightarrow> double \<Rightarrow> double" where
  "dmul x y =
     (if is_nan x \<or> is_nan y then dnan
      else if is_inf x \<or> is_inf y then
        (if mag x = 0 \<or> mag y = 0 then dnan else dinf (sign_of x \<noteq> sign_of y))
      else round_double (sign_of x \<noteq> sign_of y) (mag x * mag y) (2 ^ 1074))"

definition ddiv :: "double \<Rightarrow> double \<Rightarrow> double" where
  "ddiv x y =
     (if is_nan x \<or> is_nan y then dnan
      else if is_inf x then (if is_inf y then dnan else dinf (sign_of x \<noteq> sign_of y))
      else if is_inf y then dzero (sign_of x \<noteq> sign_of y)
      else if mag y = 0 then
        (if mag x = 0 then dnan else dinf (sign_of x \<noteq> sign_of y))
      else round_double (sign_of x \<noteq> sign_of y) (mag x * 2 ^ 1074) (mag y))"

text \<open>The comparisons \<open><\<close> and \<open>==\<close> of C: false when an operand is a NaN, and the
  two zeros are equal.\<close>

definition dlt :: "double \<Rightarrow> double \<Rightarrow> bool" where
  "dlt x y \<longleftrightarrow> \<not> is_nan x \<and> \<not> is_nan y \<and> sval x < sval y"

definition deq :: "double \<Rightarrow> double \<Rightarrow> bool" where
  "deq x y \<longleftrightarrow> \<not> is_nan x \<and> \<not> is_nan y \<and> sval x = sval y"

text \<open>A decimal floating constant \<open>m * 10^e\<close> of the source text, converted to the
  nearest double as the compiler does.\<close>

definition dec_lit :: "int \<Rightarrow> int \<Rightarrow> double" where
  "dec_lit m e =
     (if 0 \<le> e then round_double False (m * 10 ^ nat e * 2 ^ 1074) 1
      else round_double False (m * 2 ^ 1074) (10 ^ nat (- e)))"

text \<open>The conversion \<open>(double)n\<close> of an \<open>int\<close>.\<close>

definition double_of_int :: "int \<Rightarrow> double" where
  "double_of_int n = round_double (n < 0) (\<bar>n\<bar> * 2 ^ 1074) 1"

text \<open>The cast \<open>(int)d\<close>: the fractional part is discarded (truncation toward zero);
  the behaviour is undefined (\<open>None\<close>) for a NaN, an infinity and an integral part
  outside the 32-bit \<open>int\<close>.\<close>

definition int_of_double :: "double \<Rightarrow> int option" where
  "int_of_double d =
     (if expo_of d = 2047 then None
      else let t = (if sign_of d then - (mag d div 2 ^ 1074) else mag d div 2 ^ 1074) in
        if - (2 ^ 31) \<le> t \<and> t < 2 ^ 31 then Some t else None)"

text \<open>The object representation of a double, least significant byte first
  (the byte order vecmath.h assumes when it writes \<open>u.c[7]\<close> and \<open>u.c[6]\<close>).\<close>

definition bytes_of_double :: "double \<Rightarrow> 8 word list" where
  "bytes_of_double w = map (\<lambda>i. word_of_int (uint w div 2 ^ (8 * i))) [0..<8]"

definition double_of_bytes :: "8 word list \<Rightarrow> double" where
  "double_of_bytes bs = word_of_int (\<Sum>i\<leftarrow>[0..<8]. uint (bs ! i) * 2 ^ (8 * i))"


section \<open>fastexp\<close>

definition MAXLOG :: double where
  "MAXLOG = dec_lit 708396418532264106224 (- 18)"

definition MINLOG :: double where
  "MINLOG = dneg (dec_lit 708396418532264106224 (- 18))"

definition LOG2E :: double where
  "LOG2E = dec_lit 14426950408889634073599 (- 22)"

definition INFINITY :: double where
  "INFINITY = dec_lit 179769313486231570815 288"

definition C1 :: double where
  "C1 = dec_lit 693145751953125 (- 15)"

definition C2 :: double where
  "C2 = dec_lit 142860682030941723212 (- 26)"

text \<open>Line 61: \<open>n = (int)(LOG2E * x + 0.5)\<close>.\<close>

definition fastexp_n :: "double \<Rightarrow> int option" where
  "fastexp_n x = int_of_double (dadd (dmul LOG2E x) (dec_lit 5 (- 1)))"

text \<open>Lines 62 to 64: \<open>px = (double)n; x -= px * C1; x -= px * C2\<close>.\<close>

definition fastexp_reduce :: "double \<Rightarrow> int \<Rightarrow> double" where
  "fastexp_reduce x n =
     (let px = double_of_int n;
          x = dsub x (dmul px C1);
          x = dsub x (dmul px C2)
      in x)"

text \<open>Lines 65 to 73, \<open>px = x * P(x**2)\<close>, on the reduced argument.\<close>

definition fastexp_px :: "double \<Rightarrow> double" where
  "fastexp_px x =
     (let xx = dmul x x;
          px = dec_lit 126177193074810590878 (- 24);
          px = dmul px xx;
          px = dadd px (dec_lit 302994407707441961300 (- 22));
          px = dmul px xx;
          px = dadd px (dec_lit 999999999999999999910 (- 21));
          px = dmul px x
      in px)"

text \<open>Lines 65 and 75 to 82, \<open>Q(x**2)\<close>, on the reduced argument.\<close>

definition fastexp_qx :: "double \<Rightarrow> double" where
  "fastexp_qx x =
     (let xx = dmul x x;
          qx = dec_lit 300198505138664455042 (- 26);
          qx = dmul qx xx;
          qx = dadd qx (dec_lit 252448340349684104192 (- 23));
          qx = dmul qx xx;
          qx = dadd qx (dec_lit 227265548208155028766 (- 21));
          qx = dmul qx xx;
          qx = dadd qx (dec_lit 200000000000000000009 (- 20))
      in qx)"

text \<open>Line 85: \<open>x = px / (qx - px)\<close>.\<close>

definition fastexp_r :: "double \<Rightarrow> double" where
  "fastexp_r x = (let px = fastexp_px x; qx = fastexp_qx x in ddiv px (dsub qx px))"

text \<open>Lines 89 to 92: the union \<open>u\<close> is its eight bytes; \<open>u.d = 0\<close> stores the
  bytes of \<open>0.0\<close>, the two assignments overwrite \<open>u.c[7]\<close> and \<open>u.c[6]\<close>, and
  reading \<open>u.d\<close> reinterprets the bytes. \<open>n += 1023\<close> is undefined when it overflows
  the 32-bit \<open>int\<close>; \<open>>>\<close> on \<open>int\<close> is the arithmetic shift.\<close>

definition fastexp_pow2 :: "int \<Rightarrow> double option" where
  "fastexp_pow2 n0 =
     (let u = bytes_of_double (double_of_int 0);
          n = n0 + 1023
      in if 2 ^ 31 \<le> n then None
         else
           let u = u[7 := word_of_int (drop_bit 4 n AND 0x7F)];
               u = u[6 := word_of_int (push_bit 4 (n AND 0x0F))]
           in Some (double_of_bytes u))"

definition fastexp :: "double \<Rightarrow> double option" where
  "fastexp x =
     (if dlt MAXLOG x then Some INFINITY
      else if dlt x MINLOG then Some (dec_lit 0 0)
      else
        case fastexp_n x of
          None \<Rightarrow> None
        | Some n \<Rightarrow>
            let x = fastexp_reduce x n;
                x = fastexp_r x;
                x = dadd (dec_lit 10 (- 1)) (dmul (dec_lit 20 (- 1)) x)
            in case fastexp_pow2 n of
                 None \<Rightarrow> None
               | Some ud \<Rightarrow> Some (dmul x ud))"

text \<open>The range reduction as the specification words it, for comparison with
  \<open>fastexp_n\<close>: \<open>n = round(x * LOG2E)\<close>, the product rounded to the nearest integer
  (a tie away from zero, as C's \<open>round\<close>).\<close>

definition nearest_int :: "double \<Rightarrow> int" where
  "nearest_int d =
     (if sign_of d then - ((mag d + 2 ^ 1073) div 2 ^ 1074) else (mag d + 2 ^ 1073) div 2 ^ 1074)"

definition spec_fastexp_n :: "double \<Rightarrow> int" where
  "spec_fastexp_n x = nearest_int (dmul x LOG2E)"

section \<open>Vectors in memory\<close>

text \<open>Modelled from the spec: the scalar type \<open>floatval_t\<close> is declared outside
  vecmath.h; the spec gives double as its precision, and \<open>sizeof(floatval_t)\<close> is then 8.\<close>

type_synonym floatval_t = double

text \<open>Memory is a partial map from cell addresses to scalars, a pointer is the address
  of a cell, and \<open>p[i]\<close> is the cell \<open>p + i\<close>. Touching a cell that is not allocated
  is undefined behaviour: \<open>None\<close>.\<close>

type_synonym mem = "nat \<Rightarrow> floatval_t option"

text \<open>\<open>memset(p, c, len)\<close> for a byte count \<open>len\<close> that covers whole cells:
  every byte of each of the \<open>len div 8\<close> cells becomes \<open>c\<close>.\<close>

fun memset_cells :: "mem \<Rightarrow> nat \<Rightarrow> 8 word \<Rightarrow> nat \<Rightarrow> mem option" where
  "memset_cells m p c 0 = Some m"
| "memset_cells m p c (Suc k) =
     (case m p of
        None \<Rightarrow> None
      | Some w \<Rightarrow>
          memset_cells (m(p \<mapsto> double_of_bytes (map (\<lambda>b. c) (bytes_of_double w)))) (Suc p) c k)"

text \<open>\<open>sizeof(floatval_t) * n\<close> is computed in the 64-bit \<open>size_t\<close>, to which a
  negative \<open>n\<close> converts by wrapping around.\<close>

definition veczero :: "mem \<Rightarrow> nat \<Rightarrow> int \<Rightarrow> mem option" where
  "veczero m x n = memset_cells m x 0 (nat ((8 * (n mod 2 ^ 64)) mod 2 ^ 64) div 8)"

function vecadd_loop :: "mem \<Rightarrow> nat \<Rightarrow> nat \<Rightarrow> int \<Rightarrow> int \<Rightarrow> mem option" where
  "vecadd_loop m y x n i =
     (if i < n then
        (case (m (y + nat i), m (x + nat i)) of
           (Some yi, Some xi) \<Rightarrow> vecadd_loop (m(y + nat i \<mapsto> dadd yi xi)) y x n (i + 1)
         | _ \<Rightarrow> None)
      else Some m)"
  by pat_completeness auto
termination
  by (relation "measure (\<lambda>(m, y, x, n, i). nat (n - i))") auto

definition vecadd :: "mem \<Rightarrow> nat \<Rightarrow> nat \<Rightarrow> int \<Rightarrow> mem option" where
  "vecadd m y x n = vecadd_loop m y x n 0"

function vecaadd_loop :: "mem \<Rightarrow> nat \<Rightarrow> floatval_t \<Rightarrow> nat \<Rightarrow> int \<Rightarrow> int \<Rightarrow> mem option" where
  "vecaadd_loop m y a x n i =
     (if i < n then
        (case (m (y + nat i), m (x + nat i)) of
           (Some yi, Some xi) \<Rightarrow>
             vecaadd_loop (m(y + nat i \<mapsto> dadd yi (dmul a xi))) y a x n (i + 1)
         | _ \<Rightarrow> None)
      else Some m)"
  by pat_completeness auto
termination
  by (relation "measure (\<lambda>(m, y, a, x, n, i). nat (n - i))") auto

definition vecaadd :: "mem \<Rightarrow> nat \<Rightarrow> floatval_t \<Rightarrow> nat \<Rightarrow> int \<Rightarrow> mem option" where
  "vecaadd m y a x n = vecaadd_loop m y a x n 0"

text \<open>The reductions return the sum together with the memory they leave behind.\<close>

function vecdot_loop ::
  "mem \<Rightarrow> nat \<Rightarrow> nat \<Rightarrow> int \<Rightarrow> int \<Rightarrow> floatval_t \<Rightarrow> (floatval_t \<times> mem) option" where
  "vecdot_loop m x y n i s =
     (if i < n then
        (case (m (x + nat i), m (y + nat i)) of
           (Some xi, Some yi) \<Rightarrow> vecdot_loop m x y n (i + 1) (dadd s (dmul xi yi))
         | _ \<Rightarrow> None)
      else Some (s, m))"
  by pat_completeness auto
termination
  by (relation "measure (\<lambda>(m, x, y, n, i, s). nat (n - i))") auto

definition vecdot :: "mem \<Rightarrow> nat \<Rightarrow> nat \<Rightarrow> int \<Rightarrow> (floatval_t \<times> mem) option" where
  "vecdot m x y n = vecdot_loop m x y n 0 (double_of_int 0)"

function vecsum_loop ::
  "mem \<Rightarrow> nat \<Rightarrow> int \<Rightarrow> int \<Rightarrow> floatval_t \<Rightarrow> (floatval_t \<times> mem) option" where
  "vecsum_loop m x n i s =
     (if i < n then
        (case m (x + nat i) of
           Some xi \<Rightarrow> vecsum_loop m x n (i + 1) (dadd s xi)
         | None \<Rightarrow> None)
      else Some (s, m))"
  by pat_completeness auto
termination
  by (relation "measure (\<lambda>(m, x, n, i, s). nat (n - i))") auto

definition vecsum :: "mem \<Rightarrow> nat \<Rightarrow> int \<Rightarrow> (floatval_t \<times> mem) option" where
  "vecsum m x n = vecsum_loop m x n 0 (dec_lit 0 0)"

text \<open>\<open>vecexp\<close>; the loop also records, in call order, the arguments it passes to
  \<open>fastexp\<close> (a ghost variable: \<open>vecexp\<close> itself drops it).\<close>

function vecexp_loop ::
  "mem \<Rightarrow> nat \<Rightarrow> int \<Rightarrow> int \<Rightarrow> double list \<Rightarrow> (mem \<times> double list) option" where
  "vecexp_loop m x n i calls =
     (if i < n then
        (case m (x + nat i) of
           None \<Rightarrow> None
         | Some xi \<Rightarrow>
             if deq xi (dec_lit 0 0) then
               vecexp_loop (m(x + nat i \<mapsto> dec_lit 1 0)) x n (i + 1) calls
             else
               (case fastexp xi of
                  None \<Rightarrow> None
                | Some e \<Rightarrow> vecexp_loop (m(x + nat i \<mapsto> e)) x n (i + 1) (calls @ [xi])))
      else Some (m, calls))"
  by pat_completeness auto
termination
  by (relation "measure (\<lambda>(m, x, n, i, calls). nat (n - i))") auto

definition vecexp :: "mem \<Rightarrow> nat \<Rightarrow> int \<Rightarrow> mem option" where
  "vecexp m x n = map_option fst (vecexp_loop m x n 0 [])"

definition vecexp_calls :: "mem \<Rightarrow> nat \<Rightarrow> int \<Rightarrow> double list option" where
  "vecexp_calls m x n = map_option snd (vecexp_loop m x n 0 [])"

text \<open>\<open>vecsumlog\<close>; \<open>log\<close> is the C library's: the parameter \<open>lg\<close>.\<close>

function vecsumlog_loop ::
  "(double \<Rightarrow> double) \<Rightarrow> mem \<Rightarrow> nat \<Rightarrow> int \<Rightarrow> int \<Rightarrow> floatval_t \<Rightarrow> (floatval_t \<times> mem) option" where
  "vecsumlog_loop lg m x n i s =
     (if i < n then
        (case m (x + nat i) of
           Some xi \<Rightarrow> vecsumlog_loop lg m x n (i + 1) (dadd s (lg xi))
         | None \<Rightarrow> None)
      else Some (s, m))"
  by pat_completeness auto
termination
  by (relation "measure (\<lambda>(lg, m, x, n, i, s). nat (n - i))") auto

definition vecsumlog :: "(double \<Rightarrow> double) \<Rightarrow> mem \<Rightarrow> nat \<Rightarrow> int \<Rightarrow> (floatval_t \<times> mem) option" where
  "vecsumlog lg m x n = vecsumlog_loop lg m x n 0 (dec_lit 0 0)"

text \<open>The memory \<open>m\<close> holds the vector \<open>xs\<close> at the pointer \<open>p\<close>.\<close>

definition vec_at :: "mem \<Rightarrow> nat \<Rightarrow> floatval_t list \<Rightarrow> bool" where
  "vec_at m p xs \<longleftrightarrow> (\<forall>i<length xs. m (p + i) = Some (xs ! i))"

declare vecadd_loop.simps [simp del] vecaadd_loop.simps [simp del] vecdot_loop.simps [simp del]
  vecsum_loop.simps [simp del] vecexp_loop.simps [simp del] vecsumlog_loop.simps [simp del]

section \<open>Bit fields\<close>

lemma uint_lt64: "uint (w::64 word) < 2 ^ 64"
  using uint_bounded[of w] by simp

lemma uint_woi64: "0 \<le> v \<Longrightarrow> v < 2 ^ 64 \<Longrightarrow> uint (word_of_int v :: 64 word) = v"
  by (simp add: uint_word_of_int_eq take_bit_int_eq_self)

lemma frac_of_bounds: "0 \<le> frac_of w" "frac_of w < 2 ^ 52"
  by (simp_all add: frac_of_def)

lemma expo_of_bound: "expo_of w < 2048"
proof -
  have "uint w div 2 ^ 52 mod 2 ^ 11 < 2 ^ 11" by (rule pos_mod_bound) simp
  then show ?thesis by (simp add: expo_of_def)
qed

lemma uint_fields:
  "uint w = (if sign_of w then 2 ^ 63 else 0) + int (expo_of w) * 2 ^ 52 + frac_of w"
proof -
  define u where "u = uint w"
  define q where "q = u div 2 ^ 52"
  define r where "r = u mod 2 ^ 52"
  define h where "h = q div 2 ^ 11"
  define e where "e = q mod 2 ^ 11"
  have u: "0 \<le> u" "u < 2 ^ 64" using uint_lt64[of w] by (simp_all add: u_def)
  have a: "u = q * 2 ^ 52 + r" by (simp add: q_def r_def)
  have b: "q = h * 2 ^ 11 + e" by (simp add: h_def e_def)
  have "u div (2 ^ 52 * 2 ^ 11) = u div 2 ^ 52 div 2 ^ 11"
    by (rule zdiv_zmult2_eq) simp
  then have c: "h = u div 2 ^ 63" by (simp add: h_def q_def)
  have d: "h = (if 2 ^ 63 \<le> u then 1 else 0)"
  proof (cases "2 ^ 63 \<le> u")
    case True
    have "u div 2 ^ 63 = 1"
      by (rule int_div_pos_eq[where r="u - 2 ^ 63"]) (use True u in simp_all)
    with True c show ?thesis by simp
  next
    case False
    then have "u div 2 ^ 63 = 0" using u by (simp add: div_pos_pos_trivial)
    with False c show ?thesis by simp
  qed
  have ee: "int (expo_of w) = e"
    by (simp add: expo_of_def e_def q_def u_def)
  have "u = h * 2 ^ 63 + e * 2 ^ 52 + r"
    using a b by (simp add: algebra_simps)
  then have "u = (if 2 ^ 63 \<le> u then 2 ^ 63 else 0) + e * 2 ^ 52 + r"
    using d by (simp split: if_splits)
  then show ?thesis
    unfolding sign_of_def ee frac_of_def u_def r_def .
qed

lemma uint_mk_double:
  assumes "e < 2048" "0 \<le> f" "f < 2 ^ 52"
  shows "uint (mk_double s e f) = (if s then 2 ^ 63 else 0) + int e * 2 ^ 52 + f"
proof -
  define v where "v = (if s then 2 ^ 63 else 0) + int e * 2 ^ 52 + f"
  have "int e \<le> 2047" using assms by simp
  then have "int e * 2 ^ 52 \<le> 2047 * 2 ^ 52" by simp
  then have "0 \<le> v" "v < 2 ^ 64" using assms by (auto simp: v_def)
  then have "uint (word_of_int v :: 64 word) = v" by (rule uint_woi64)
  then show ?thesis unfolding mk_double_def v_def .
qed

lemma mk_double_fields:
  assumes "e < 2048" "0 \<le> f" "f < 2 ^ 52"
  shows "sign_of (mk_double s e f) = s" "expo_of (mk_double s e f) = e" "frac_of (mk_double s e f) = f"
proof -
  define v where "v = int e * 2 ^ 52 + f"
  have ie: "0 \<le> int e" "int e < 2 ^ 11" using assms by simp_all
  have "int e \<le> 2047" using assms by simp
  then have "int e * 2 ^ 52 \<le> 2047 * 2 ^ 52" by simp
  then have v: "0 \<le> v" "v < 2 ^ 63" using assms by (auto simp: v_def)
  have u: "uint (mk_double s e f) = (if s then 2 ^ 63 else 0) + v"
    using uint_mk_double[OF assms, of s] by (simp add: v_def)
  show "sign_of (mk_double s e f) = s"
    unfolding sign_of_def u using v by auto
  have m: "v mod 2 ^ 52 = f" using assms by (simp add: v_def)
  have "(2 ^ 52 * 2 ^ 11 + v) mod 2 ^ 52 = v mod 2 ^ 52"
    by (rule mod_mult_self4)
  then have "((if s then 2 ^ 63 else 0) + v) mod 2 ^ 52 = v mod 2 ^ 52"
    by (cases s) simp_all
  then show "frac_of (mk_double s e f) = f"
    unfolding frac_of_def u using m by simp
  have dv: "v div 2 ^ 52 = int e" using assms by (simp add: v_def)
  have "((if s then 2 ^ 63 else 0) + v) div 2 ^ 52 = (if s then 2 ^ 11 else 0) + int e"
    using dv by (cases s) simp_all
  then have "((if s then 2 ^ 63 else 0) + v) div 2 ^ 52 mod 2 ^ 11 = int e"
    using ie by (cases s) simp_all
  then show "expo_of (mk_double s e f) = e"
    unfolding expo_of_def u by simp
qed

lemma mk_double_of_fields: "mk_double (sign_of w) (expo_of w) (frac_of w) = w"
proof -
  have "uint (mk_double (sign_of w) (expo_of w) (frac_of w)) = uint w"
    using uint_mk_double[OF expo_of_bound frac_of_bounds, where s="sign_of w"] uint_fields[of w]
    by simp
  then show ?thesis by (simp add: word_uint_eq_iff)
qed

section \<open>Magnitudes and rounding\<close>

lemma div_lt_bound: "0 < D \<Longrightarrow> N < D * c \<Longrightarrow> N div D < (c::int)"
proof (rule ccontr)
  assume D: "0 < D" and N: "N < D * c" and "\<not> N div D < c"
  then have "c \<le> N div D" by simp
  then have "D * c \<le> D * (N div D)" using D by (simp add: mult_left_mono)
  moreover have "D * (N div D) + N mod D = N" by (rule mult_div_mod_eq)
  moreover have "0 \<le> N mod D" using D by simp
  ultimately show False using N by linarith
qed

lemma div_ge_bound: "0 < D \<Longrightarrow> D * c \<le> N \<Longrightarrow> (c::int) \<le> N div D"
proof (rule ccontr)
  assume D: "0 < D" and N: "D * c \<le> N" and "\<not> c \<le> N div D"
  then have "N div D + 1 \<le> c" by simp
  then have "D * (N div D + 1) \<le> D * c" using D by (simp only: mult_left_mono)
  moreover have "D * (N div D) + N mod D = N" by (rule mult_div_mod_eq)
  moreover have "N mod D < D" using D by simp
  ultimately show False using N by (simp add: algebra_simps)
qed

lemma rne_div_cases:
  assumes "0 < D"
  obtains q r where "N = D * q + r" "0 \<le> r" "r < D"
    "rne_div N D = (if 2 * r < D then q else if D < 2 * r then q + 1 else if even q then q else q + 1)"
proof -
  have "N = D * (N div D) + N mod D" by simp
  moreover have "0 \<le> N mod D" "N mod D < D" using assms by simp_all
  moreover have "rne_div N D = (if 2 * (N mod D) < D then N div D else if D < 2 * (N mod D) then N div D + 1
      else if even (N div D) then N div D else N div D + 1)"
    by (simp add: rne_div_def Let_def)
  ultimately show thesis by (rule that)
qed

lemma rne_div_le:
  assumes "0 < D" "N \<le> c * D"
  shows "rne_div N D \<le> c"
proof -
  obtain q r where qr: "N = D * q + r" "0 \<le> r" "r < D"
    and v: "rne_div N D = (if 2 * r < D then q else if D < 2 * r then q + 1 else if even q then q else q + 1)"
    using rne_div_cases[OF assms(1)] by blast
  have Nc: "N \<le> D * c" using assms(2) by (simp add: mult.commute)
  then have "D * q \<le> D * c" using qr by linarith
  then have qc: "q \<le> c" using assms(1) by (simp only: mult_le_cancel_left_pos)
  show ?thesis
  proof (cases "q = c")
    case True
    then have "r = 0" using qr Nc by simp
    then show ?thesis using v True assms(1) by simp
  next
    case False
    then have "q + 1 \<le> c" using qc by simp
    then show ?thesis using v qc by (simp split: if_splits)
  qed
qed

lemma rne_div_ge:
  assumes "0 < D" "c * D \<le> N"
  shows "c \<le> rne_div N D"
proof -
  obtain q r where qr: "N = D * q + r" "0 \<le> r" "r < D"
    and v: "rne_div N D = (if 2 * r < D then q else if D < 2 * r then q + 1 else if even q then q else q + 1)"
    using rne_div_cases[OF assms(1)] by blast
  have "D * c \<le> N" using assms(2) by (simp add: mult.commute)
  moreover have "D * (q + 1) = D * q + D" by (simp add: algebra_simps)
  ultimately have "D * c < D * (q + 1)" using qr by linarith
  then have "c < q + 1" using assms(1) by (simp only: mult_less_cancel_left_pos)
  then show ?thesis using v by (simp split: if_splits)
qed

lemma rne_div_eqI:
  assumes D: "0 < D"
    and k: "2 * \<bar>N - k * D\<bar> < D \<or> (2 * \<bar>N - k * D\<bar> = D \<and> even k)"
  shows "rne_div N D = k"
proof -
  obtain q r where qr: "N = D * q + r" "0 \<le> r" "r < D"
    and v: "rne_div N D = (if 2 * r < D then q else if D < 2 * r then q + 1 else if even q then q else q + 1)"
    using rne_div_cases[OF D] by blast
  define X where "X = D * (q - k)"
  define Y where "Y = N - k * D"
  have e: "Y = X + r" using qr by (simp add: algebra_simps X_def Y_def)
  have le: "2 * \<bar>Y\<bar> \<le> D" using k by (auto simp: Y_def)
  have "q = k \<or> q = k - 1"
  proof (rule ccontr)
    assume "\<not> (q = k \<or> q = k - 1)"
    then consider "1 \<le> q - k" | "q - k \<le> - 2" by linarith
    then show False
    proof cases
      case 1
      then have "D * 1 \<le> D * (q - k)" using D by (simp only: mult_left_mono)
      then have "D \<le> X" by (simp add: X_def)
      then show False using e le qr(2,3) D by linarith
    next
      case 2
      then have "D * (q - k) \<le> D * (- 2)" using D by (simp only: mult_left_mono)
      then have "X \<le> - 2 * D" by (simp add: X_def)
      then show False using e le qr(2,3) D by linarith
    qed
  qed
  then show ?thesis
  proof
    assume "q = k"
    then have "Y = r" using e by (simp add: X_def)
    then show ?thesis using v k qr(2,3) \<open>q = k\<close> unfolding Y_def[symmetric] by auto
  next
    assume q: "q = k - 1"
    then have "X = - D" by (simp add: X_def)
    then have "Y = r - D" using e by simp
    then show ?thesis using v k qr(2,3) q unfolding Y_def[symmetric] by auto
  qed
qed

lemma rne_div_exact: "0 < D \<Longrightarrow> rne_div (k * D) D = k"
  by (rule rne_div_eqI) simp_all

lemma bitlen_eqI: "0 < b \<Longrightarrow> 2 ^ (b - 1) \<le> x \<Longrightarrow> x < 2 ^ b \<Longrightarrow> bitlen x = int b"
  by (intro antisym) (simp_all add: bitlen_le_iff_power bitlen_ge_iff_power)

lemma mag_nonneg: "0 \<le> mag w"
  using frac_of_bounds[of w] by (simp add: mag_def)

lemma mag_mk_double:
  assumes "e < 2048" "0 \<le> f" "f < 2 ^ 52"
  shows "mag (mk_double s e f) = (if e = 0 then f else (2 ^ 52 + f) * 2 ^ (e - 1))"
  unfolding mag_def mk_double_fields[OF assms] ..

lemma of_mag_sub: "k < 2 ^ 52 \<Longrightarrow> of_mag s k = mk_double s 0 k"
  by (simp add: of_mag_def)

lemma of_mag_norm:
  assumes "2 ^ 52 \<le> k" "k < 2 ^ 53" "sh + 1 < 2047"
  shows "of_mag s (k * 2 ^ sh) = mk_double s (sh + 1) (k - 2 ^ 52)"
proof -
  have "bitlen k = int 53" by (rule bitlen_eqI) (use assms in simp_all)
  moreover have "0 < k" using assms by simp
  ultimately have b: "bitlen (k * 2 ^ sh) = 53 + int sh" by simp
  have "2 ^ 52 * 1 \<le> k * (2::int) ^ sh" by (rule mult_mono) (use assms in simp_all)
  then have n: "\<not> k * 2 ^ sh < 2 ^ 52" by simp
  have e: "nat (bitlen (k * 2 ^ sh) - 52) = sh + 1" using b by simp
  show ?thesis
    unfolding of_mag_def Let_def e using n assms(3) by simp
qed

lemma of_mag_mag:
  assumes "expo_of w < 2047"
  shows "of_mag s (mag w) = mk_double s (expo_of w) (frac_of w)"
proof (cases "expo_of w = 0")
  case True
  then show ?thesis using frac_of_bounds[of w] by (simp add: mag_def of_mag_sub)
next
  case False
  then obtain sh where sh: "expo_of w = sh + 1" by (cases "expo_of w") simp_all
  have "of_mag s ((2 ^ 52 + frac_of w) * 2 ^ sh) = mk_double s (sh + 1) (2 ^ 52 + frac_of w - 2 ^ 52)"
    by (rule of_mag_norm) (use frac_of_bounds[of w] assms sh in simp_all)
  then show ?thesis using sh by (simp add: mag_def)
qed

lemma of_mag_self: "expo_of w < 2047 \<Longrightarrow> of_mag (sign_of w) (mag w) = w"
  by (simp add: of_mag_mag mk_double_of_fields)

lemma round_mag_eqI:
  assumes N: "0 \<le> N" and D: "0 < D"
    and lo: "sh = 0 \<or> D * 2 ^ (52 + sh) \<le> N"
    and hi: "N < D * 2 ^ (53 + sh)"
    and k: "2 * \<bar>N - k * (D * 2 ^ sh)\<bar> < D * 2 ^ sh
            \<or> (2 * \<bar>N - k * (D * 2 ^ sh)\<bar> = D * 2 ^ sh \<and> even k)"
  shows "round_mag N D = k * 2 ^ sh"
proof -
  define q where "q = N div D"
  have q1: "q < 2 ^ (53 + sh)" unfolding q_def using D hi by (rule div_lt_bound)
  have s: "nat (bitlen q - 53) = sh"
  proof (cases "sh = 0")
    case True
    have "bitlen q \<le> 53" using q1 True by (simp add: bitlen_le_iff_power)
    then show ?thesis using True by simp
  next
    case False
    then have "D * 2 ^ (52 + sh) \<le> N" using lo by simp
    then have "2 ^ (52 + sh) \<le> q" unfolding q_def using D by (simp only: div_ge_bound)
    then have "bitlen q = int (53 + sh)" using q1 by (intro bitlen_eqI) simp_all
    then show ?thesis by simp
  qed
  have "rne_div N (D * 2 ^ sh) = k" by (rule rne_div_eqI) (use D k in simp_all)
  then show ?thesis
    unfolding round_mag_def Let_def q_def[symmetric] s by simp
qed

lemma round_mag_exact:
  assumes "expo_of w < 2047" "0 < D"
  shows "round_mag (mag w * D) D = mag w"
proof (cases "expo_of w = 0")
  case True
  have f: "0 \<le> frac_of w" "frac_of w < 2 ^ 52" by (rule frac_of_bounds)+
  have "frac_of w * D < 2 ^ 53 * D" using f assms(2) by simp
  then have "round_mag (frac_of w * D) D = frac_of w * 2 ^ 0"
    by (intro round_mag_eqI) (use f assms(2) in \<open>simp_all add: mult.commute\<close>)
  then show ?thesis using True by (simp add: mag_def)
next
  case False
  then obtain sh where sh: "expo_of w = sh + 1" by (cases "expo_of w") simp_all
  define k where "k = 2 ^ 52 + frac_of w"
  define P where "P = D * 2 ^ sh"
  have k: "2 ^ 52 \<le> k" "k < 2 ^ 53" using frac_of_bounds[of w] by (simp_all add: k_def)
  have P: "0 < P" using assms(2) by (simp add: P_def)
  have m: "mag w = k * 2 ^ sh" using sh by (simp add: mag_def k_def)
  have N: "mag w * D = k * P" by (simp add: m P_def)
  have lo: "2 ^ 52 * P \<le> k * P" using k P by (simp only: mult_right_mono)
  have hi: "k * P < 2 ^ 53 * P" using k P by (simp only: mult_strict_right_mono)
  have "round_mag (k * P) D = k * 2 ^ sh"
  proof (rule round_mag_eqI)
    show "0 \<le> k * P" using k P by simp
    show "0 < D" by fact
    show "sh = 0 \<or> D * 2 ^ (52 + sh) \<le> k * P"
      using lo by (simp add: P_def power_add algebra_simps)
    show "k * P < D * 2 ^ (53 + sh)"
      using hi by (simp add: P_def power_add algebra_simps)
    show "2 * \<bar>k * P - k * (D * 2 ^ sh)\<bar> < D * 2 ^ sh
            \<or> (2 * \<bar>k * P - k * (D * 2 ^ sh)\<bar> = D * 2 ^ sh \<and> even k)"
      using P by (simp add: P_def)
  qed
  then show ?thesis unfolding N[symmetric] m[symmetric] .
qed

lemma round_double_exact:
  "expo_of w < 2047 \<Longrightarrow> 0 < D \<Longrightarrow>
     round_double s (mag w * D) D = mk_double s (expo_of w) (frac_of w)"
  by (simp add: round_double_def round_mag_exact of_mag_mag)

lemma round_mag_repr:
  assumes N: "0 \<le> N" and D: "0 < D"
  obtains k sh where "round_mag N D = k * 2 ^ sh" "0 \<le> k" "k \<le> 2 ^ 53" "sh = 0 \<or> 2 ^ 52 \<le> k"
    "sh = nat (bitlen (N div D) - 53)" "k = rne_div N (D * 2 ^ sh)"
proof -
  define q where "q = N div D"
  define sh where "sh = nat (bitlen q - 53)"
  define k where "k = rne_div N (D * 2 ^ sh)"
  have P: "0 < D * 2 ^ sh" using D by simp
  have q0: "0 \<le> q" unfolding q_def using N D by (simp add: pos_imp_zdiv_nonneg_iff)
  have "bitlen q \<le> 53 + int sh" by (simp add: sh_def)
  then have "q < 2 ^ (53 + sh)" by (simp add: bitlen_le_iff_power nat_add_distrib)
  then have "q + 1 \<le> 2 ^ (53 + sh)" by simp
  then have "D * (q + 1) \<le> D * 2 ^ (53 + sh)" using D by (simp only: mult_left_mono)
  moreover have "D * q + N mod D = N" unfolding q_def by (rule mult_div_mod_eq)
  moreover have "N mod D < D" using D by simp
  ultimately have "N \<le> D * 2 ^ (53 + sh)" by (simp add: algebra_simps)
  then have "N \<le> 2 ^ 53 * (D * 2 ^ sh)" by (simp add: power_add algebra_simps)
  then have k1: "k \<le> 2 ^ 53" unfolding k_def using P by (intro rne_div_le)
  have "0 * (D * 2 ^ sh) \<le> N" using N by simp
  then have k0: "0 \<le> k" unfolding k_def using P by (intro rne_div_ge)
  have k2: "sh = 0 \<or> 2 ^ 52 \<le> k"
  proof (cases "sh = 0")
    case False
    then have "53 + int sh \<le> bitlen q" by (simp add: sh_def)
    then have "2 ^ (52 + sh) \<le> q" by (simp add: bitlen_ge_iff_power nat_add_distrib)
    then have "D * 2 ^ (52 + sh) \<le> D * q" using D by (simp only: mult_left_mono)
    moreover have "D * q + N mod D = N" unfolding q_def by (rule mult_div_mod_eq)
    moreover have "0 \<le> N mod D" using D by simp
    ultimately have "D * 2 ^ (52 + sh) \<le> N" by linarith
    then have "2 ^ 52 * (D * 2 ^ sh) \<le> N" by (simp add: power_add algebra_simps)
    then have "2 ^ 52 \<le> k" unfolding k_def using P by (intro rne_div_ge)
    then show ?thesis ..
  qed simp
  have "round_mag N D = k * 2 ^ sh"
    by (simp add: round_mag_def Let_def k_def sh_def q_def)
  then show thesis using k0 k1 k2 by (rule that) (simp_all add: sh_def q_def k_def)
qed

lemma of_mag_repr:
  assumes "0 \<le> k" "k \<le> 2 ^ 53" "sh = 0 \<or> 2 ^ 52 \<le> k" "k * 2 ^ sh < 2 ^ 2098"
  shows "mag (of_mag s (k * 2 ^ sh)) = k * 2 ^ sh"
    and "expo_of (of_mag s (k * 2 ^ sh)) < 2047"
    and "sign_of (of_mag s (k * 2 ^ sh)) = s"
proof -
  have "mag (of_mag s (k * 2 ^ sh)) = k * 2 ^ sh \<and> expo_of (of_mag s (k * 2 ^ sh)) < 2047
      \<and> sign_of (of_mag s (k * 2 ^ sh)) = s"
  proof (cases "k < 2 ^ 52")
    case True
    then have sh: "sh = 0" using assms(3) by auto
    show ?thesis
      using True assms(1) by (simp add: sh of_mag_sub mag_mk_double mk_double_fields)
  next
    case False
    then have k: "2 ^ 52 \<le> k" by simp
    show ?thesis
    proof (cases "k = 2 ^ 53")
      case False
      with assms(2) have k2: "k < 2 ^ 53" by simp
      have "(2::int) ^ (52 + sh) = 2 ^ 52 * 2 ^ sh" by (rule power_add)
      also have "\<dots> \<le> k * 2 ^ sh" using k by (intro mult_right_mono) simp_all
      also have "\<dots> < 2 ^ 2098" by (rule assms(4))
      finally have "(2::int) ^ (52 + sh) < 2 ^ 2098" .
      then have "52 + sh < 2098" by (rule power_less_imp_less_exp[rotated]) simp
      then have s: "sh + 1 < 2047" by simp
      have f: "0 \<le> k - 2 ^ 52" "k - 2 ^ 52 < 2 ^ 52" using k k2 by simp_all
      have e: "sh + 1 < 2048" using s by simp
      show ?thesis
        unfolding of_mag_norm[OF k k2 s] mag_mk_double[OF e f] mk_double_fields[OF e f]
        using s by simp
    next
      case True
      have "(2::int) ^ (53 + sh) = 2 ^ 53 * 2 ^ sh" by (rule power_add)
      also have "\<dots> < 2 ^ 2098" using assms(4) unfolding True .
      finally have "(2::int) ^ (53 + sh) < 2 ^ 2098" .
      then have "53 + sh < 2098" by (rule power_less_imp_less_exp[rotated]) simp
      then have s: "(sh + 1) + 1 < 2047" by simp
      have e: "(sh + 1) + 1 < 2048" using s by simp
      have kk: "k * 2 ^ sh = 2 ^ 52 * 2 ^ (sh + 1)" by (simp add: True)
      have o: "of_mag s (2 ^ 52 * 2 ^ (sh + 1)) = mk_double s ((sh + 1) + 1) (2 ^ 52 - 2 ^ 52)"
        by (rule of_mag_norm) (use s in simp_all)
      have f: "(0::int) \<le> 2 ^ 52 - 2 ^ 52" "(2::int) ^ 52 - 2 ^ 52 < 2 ^ 52" by simp_all
      show ?thesis
        unfolding kk o mag_mk_double[OF e f] mk_double_fields[OF e f]
        using s by simp
    qed
  qed
  then show "mag (of_mag s (k * 2 ^ sh)) = k * 2 ^ sh"
    and "expo_of (of_mag s (k * 2 ^ sh)) < 2047"
    and "sign_of (of_mag s (k * 2 ^ sh)) = s" by simp_all
qed

lemma mag_finite_lt: 
  assumes "expo_of w < 2047"
  shows "mag w < 2 ^ 2098"
proof (cases "expo_of w = 0")
  case True
  have "frac_of w < 2 ^ 52" by (rule frac_of_bounds)
  also have "(2::int) ^ 52 < 2 ^ 2098" by (rule power_strict_increasing) simp_all
  finally show ?thesis using True by (simp add: mag_def)
next
  case False
  have "2 ^ 52 + frac_of w < 2 ^ 53" using frac_of_bounds[of w] by simp
  moreover have "(2::int) ^ (expo_of w - 1) \<le> 2 ^ 2045" using assms by (intro power_increasing) simp_all
  moreover have "0 \<le> 2 ^ 52 + frac_of w" using frac_of_bounds[of w] by simp
  ultimately have "(2 ^ 52 + frac_of w) * 2 ^ (expo_of w - 1) < 2 ^ 53 * 2 ^ 2045"
    by (intro mult_less_le_imp_less) simp_all
  also have "(2::int) ^ 53 * 2 ^ 2045 = 2 ^ 2098" by (simp only: power_add[symmetric]) simp
  finally show ?thesis using False by (simp add: mag_def)
qed

lemma round_mag_le:
  assumes N: "0 \<le> N" and D: "0 < D" and b: "expo_of b < 2047" and le: "N \<le> mag b * D"
  shows "round_mag N D \<le> mag b"
proof -
  obtain k sh where r: "round_mag N D = k * 2 ^ sh" and k: "0 \<le> k" "k \<le> 2 ^ 53" "sh = 0 \<or> 2 ^ 52 \<le> k"
    and sh: "sh = nat (bitlen (N div D) - 53)" and kd: "k = rne_div N (D * 2 ^ sh)"
    using round_mag_repr[OF N D] by blast
  have P: "0 < D * 2 ^ sh" using D by simp
  show ?thesis
  proof (cases "sh = 0")
    case True
    have "k \<le> mag b" unfolding kd True using D le by (intro rne_div_le) simp_all
    then show ?thesis using r True by simp
  next
    case False
    then have k52: "2 ^ 52 \<le> k" using k by simp
    define q where "q = N div D"
    have "53 + int sh \<le> bitlen q" using False by (simp add: sh q_def)
    then have q: "2 ^ (52 + sh) \<le> q" by (simp add: bitlen_ge_iff_power nat_add_distrib)
    have "N \<le> D * mag b" using le by (simp add: mult.commute)
    moreover have "D * q + N mod D = N" unfolding q_def by (rule mult_div_mod_eq)
    moreover have "0 \<le> N mod D" using D by simp
    ultimately have "D * q \<le> D * mag b" by linarith
    then have qb: "q \<le> mag b" using D by (simp only: mult_le_cancel_left_pos)
    have e0: "expo_of b \<noteq> 0"
    proof
      assume "expo_of b = 0"
      then have "mag b < 2 ^ 52" using frac_of_bounds[of b] by (simp add: mag_def)
      also have "(2::int) ^ 52 \<le> 2 ^ (52 + sh)" by (intro power_increasing) simp_all
      finally show False using q qb by simp
    qed
    then obtain eb where eb: "expo_of b = eb + 1" by (cases "expo_of b") simp_all
    define kb where "kb = 2 ^ 52 + frac_of b"
    have kb: "2 ^ 52 \<le> kb" "kb < 2 ^ 53" using frac_of_bounds[of b] by (simp_all add: kb_def)
    have mb: "mag b = kb * 2 ^ eb" using eb by (simp add: mag_def kb_def)
    have "sh \<le> eb"
    proof (rule ccontr)
      assume "\<not> sh \<le> eb"
      then have "eb + 1 \<le> sh" by simp
      have "kb * 2 ^ eb < 2 ^ 53 * 2 ^ eb" using kb by (simp only: mult_strict_right_mono zero_less_numeral zero_less_power)
      also have "\<dots> = (2::int) ^ (52 + (eb + 1))" by (simp add: power_add)
      also have "\<dots> \<le> 2 ^ (52 + sh)" using \<open>eb + 1 \<le> sh\<close> by (intro power_increasing) simp_all
      finally show False using q qb mb by simp
    qed
    then obtain d where d: "eb = sh + d" using le_Suc_ex by blast
    have "N \<le> (kb * 2 ^ d) * (D * 2 ^ sh)"
      using le by (simp add: mb d power_add algebra_simps)
    then have "k \<le> kb * 2 ^ d" unfolding kd using P by (intro rne_div_le)
    then have "k * 2 ^ sh \<le> (kb * 2 ^ d) * 2 ^ sh" by (simp only: mult_right_mono zero_le_numeral zero_le_power)
    then show ?thesis using r by (simp add: mb d power_add algebra_simps)
  qed
qed

lemma round_double_normal_eqI:
  assumes "0 \<le> N" "0 < D"
    and "sh = 0 \<or> D * 2 ^ (52 + sh) \<le> N"
    and "N < D * 2 ^ (53 + sh)"
    and "2 * \<bar>N - k * (D * 2 ^ sh)\<bar> < D * 2 ^ sh
            \<or> (2 * \<bar>N - k * (D * 2 ^ sh)\<bar> = D * 2 ^ sh \<and> even k)"
    and "2 ^ 52 \<le> k" "k < 2 ^ 53" "sh + 1 < 2047"
  shows "round_double s N D = mk_double s (sh + 1) (k - 2 ^ 52)"
  unfolding round_double_def round_mag_eqI[OF assms(1-5)] by (rule of_mag_norm) fact+

lemma round_double_sub_eqI:
  assumes "0 \<le> N" "0 < D"
    and "N < D * 2 ^ 53"
    and "2 * \<bar>N - k * D\<bar> < D \<or> (2 * \<bar>N - k * D\<bar> = D \<and> even k)"
    and "k < 2 ^ 52"
  shows "round_double s N D = mk_double s 0 k"
proof -
  have "round_mag N D = k * 2 ^ 0"
    by (rule round_mag_eqI) (use assms in simp_all)
  then have r: "round_mag N D = k" by simp
  show ?thesis unfolding round_double_def r by (rule of_mag_sub) fact
qed


lemma round_double_normal_eqI2:
  assumes n: "0 \<le> n" and D: "0 < D"
    and lo: "D * 2 ^ 52 \<le> n * 2 ^ c"
    and hi: "n * 2 ^ c < D * 2 ^ 53"
    and r: "2 * \<bar>n * 2 ^ c - k * D\<bar> < D \<or> (2 * \<bar>n * 2 ^ c - k * D\<bar> = D \<and> even k)"
    and k: "2 ^ 52 \<le> k" "k < 2 ^ 53" and sh: "sh + 1 < 2047"
  shows "round_double s (n * 2 ^ (sh + c)) D = mk_double s (sh + 1) (k - 2 ^ 52)"
proof (rule round_double_normal_eqI)
  define T :: int where "T = 2 ^ sh"
  have T: "0 < T" by (simp add: T_def)
  have N: "n * 2 ^ (sh + c) = (n * 2 ^ c) * T" by (simp add: T_def power_add)
  show "0 \<le> n * 2 ^ (sh + c)" using n by simp
  show "0 < D" by fact
  have "(D * 2 ^ 52) * T \<le> (n * 2 ^ c) * T" using lo T by (simp only: mult_right_mono)
  then show "sh = 0 \<or> D * 2 ^ (52 + sh) \<le> n * 2 ^ (sh + c)"
    unfolding N by (simp add: T_def power_add algebra_simps)
  have "(n * 2 ^ c) * T < (D * 2 ^ 53) * T" using hi T by (simp only: mult_strict_right_mono)
  then show "n * 2 ^ (sh + c) < D * 2 ^ (53 + sh)"
    unfolding N by (simp add: T_def power_add algebra_simps)
  have d: "n * 2 ^ (sh + c) - k * (D * 2 ^ sh) = (n * 2 ^ c - k * D) * T"
    by (simp add: T_def power_add algebra_simps)
  have a: "2 * \<bar>(n * 2 ^ c - k * D) * T\<bar> = (2 * \<bar>n * 2 ^ c - k * D\<bar>) * T"
    using T by (simp add: abs_mult)
  have "(2 * \<bar>n * 2 ^ c - k * D\<bar>) * T < D * T \<or> ((2 * \<bar>n * 2 ^ c - k * D\<bar>) * T = D * T \<and> even k)"
    using r T by auto
  then show "2 * \<bar>n * 2 ^ (sh + c) - k * (D * 2 ^ sh)\<bar> < D * 2 ^ sh
        \<or> (2 * \<bar>n * 2 ^ (sh + c) - k * (D * 2 ^ sh)\<bar> = D * 2 ^ sh \<and> even k)"
    unfolding d a by (simp only: T_def)
qed fact+

lemma round_double_normal_eqI3:
  assumes n: "0 \<le> n" and D: "0 < D"
    and lo: "D * 2 ^ (52 + c) \<le> n"
    and hi: "n < D * 2 ^ (53 + c)"
    and r: "2 * \<bar>n - k * (D * 2 ^ c)\<bar> < D * 2 ^ c
         \<or> (2 * \<bar>n - k * (D * 2 ^ c)\<bar> = D * 2 ^ c \<and> even k)"
    and k: "2 ^ 52 \<le> k" "k < 2 ^ 53" and sh: "a + c + 1 < 2047"
  shows "round_double s (n * 2 ^ a) D = mk_double s (a + c + 1) (k - 2 ^ 52)"
proof (rule round_double_normal_eqI)
  define T :: int where "T = 2 ^ a"
  have T: "0 < T" by (simp add: T_def)
  show "0 \<le> n * 2 ^ a" using n by simp
  show "0 < D" by fact
  have "(D * 2 ^ (52 + c)) * T \<le> n * T" using lo T by (simp only: mult_right_mono)
  then show "a + c = 0 \<or> D * 2 ^ (52 + (a + c)) \<le> n * 2 ^ a"
    by (simp add: T_def power_add algebra_simps)
  have "n * T < (D * 2 ^ (53 + c)) * T" using hi T by (simp only: mult_strict_right_mono)
  then show "n * 2 ^ a < D * 2 ^ (53 + (a + c))"
    by (simp add: T_def power_add algebra_simps)
  have d: "n * 2 ^ a - k * ((D * 2 ^ c) * T) = (n - k * (D * 2 ^ c)) * T"
    by (simp add: T_def power_add algebra_simps)
  have a: "2 * \<bar>(n - k * (D * 2 ^ c)) * T\<bar> = (2 * \<bar>n - k * (D * 2 ^ c)\<bar>) * T"
    using T by (simp add: abs_mult)
  have e: "D * 2 ^ (a + c) = (D * 2 ^ c) * T" by (simp add: T_def power_add algebra_simps)
  have "(2 * \<bar>n - k * (D * 2 ^ c)\<bar>) * T < (D * 2 ^ c) * T
      \<or> ((2 * \<bar>n - k * (D * 2 ^ c)\<bar>) * T = (D * 2 ^ c) * T \<and> even k)"
    using r T by auto
  then show "2 * \<bar>n * 2 ^ a - k * (D * 2 ^ (a + c))\<bar> < D * 2 ^ (a + c)
        \<or> (2 * \<bar>n * 2 ^ a - k * (D * 2 ^ (a + c))\<bar> = D * 2 ^ (a + c) \<and> even k)"
    unfolding e d a .
qed fact+

section \<open>The constants of the source text\<close>

lemma dec_lit_zero: "dec_lit 0 0 = 0x0000000000000000"
proof -
  have "round_double False (0 * 10 ^ 0 * 2 ^ 1074) (1) = mk_double False 0 0"
    by (rule round_double_sub_eqI[where k=0]) simp_all
  then show ?thesis by (simp add: dec_lit_def mk_double_def)
qed

lemma dec_lit_one: "dec_lit 1 0 = 0x3FF0000000000000"
proof -
  have "round_double False (1 * 10 ^ 0 * 2 ^ (1022 + 52)) (1) = mk_double False (1022 + 1) (4503599627370496 - 2 ^ 52)"
    by (rule round_double_normal_eqI2[where k=4503599627370496]) simp_all
  then show ?thesis by (simp add: dec_lit_def mk_double_def)
qed

lemma dec_lit_one': "dec_lit 10 (- 1) = 0x3FF0000000000000"
proof -
  have "round_double False (10 * 2 ^ (1022 + 52)) (10 ^ 1) = mk_double False (1022 + 1) (4503599627370496 - 2 ^ 52)"
    by (rule round_double_normal_eqI2[where k=4503599627370496]) simp_all
  then show ?thesis by (simp add: dec_lit_def mk_double_def)
qed

lemma dec_lit_two: "dec_lit 20 (- 1) = 0x4000000000000000"
proof -
  have "round_double False (20 * 2 ^ (1023 + 51)) (10 ^ 1) = mk_double False (1023 + 1) (4503599627370496 - 2 ^ 52)"
    by (rule round_double_normal_eqI2[where k=4503599627370496]) simp_all
  then show ?thesis by (simp add: dec_lit_def mk_double_def)
qed

lemma dec_lit_half: "dec_lit 5 (- 1) = 0x3FE0000000000000"
proof -
  have "round_double False (5 * 2 ^ (1021 + 53)) (10 ^ 1) = mk_double False (1021 + 1) (4503599627370496 - 2 ^ 52)"
    by (rule round_double_normal_eqI2[where k=4503599627370496]) simp_all
  then show ?thesis by (simp add: dec_lit_def mk_double_def)
qed

lemma dec_lit_MAXLOG: "dec_lit 708396418532264106224 (- 18) = 0x4086232BDD7ABCD2"
proof -
  have "round_double False (708396418532264106224 * 2 ^ (1031 + 43)) (10 ^ 18) = mk_double False (1031 + 1) (6231120794008786 - 2 ^ 52)"
    by (rule round_double_normal_eqI2[where k=6231120794008786]) simp_all
  then show ?thesis by (simp add: dec_lit_def mk_double_def)
qed

lemma dec_lit_LOG2E: "dec_lit 14426950408889634073599 (- 22) = 0x3FF71547652B82FE"
proof -
  have "round_double False (14426950408889634073599 * 2 ^ (1022 + 52)) (10 ^ 22) = mk_double False (1022 + 1) (6497320848556798 - 2 ^ 52)"
    by (rule round_double_normal_eqI2[where k=6497320848556798]) simp_all
  then show ?thesis by (simp add: dec_lit_def mk_double_def)
qed

lemma dec_lit_INFINITY: "dec_lit 179769313486231570815 288 = 0x7FEFFFFFFFFFFFFF"
proof -
  have "round_double False (179769313486231570815 * 10 ^ 288 * 2 ^ 1074) (1) = mk_double False (1074 + 971 + 1) (9007199254740991 - 2 ^ 52)"
    by (rule round_double_normal_eqI3[where k=9007199254740991]) simp_all
  then show ?thesis by (simp add: dec_lit_def mk_double_def)
qed

lemma dec_lit_C1: "dec_lit 693145751953125 (- 15) = 0x3FE62E4000000000"
proof -
  have "round_double False (693145751953125 * 2 ^ (1021 + 53)) (10 ^ 15) = mk_double False (1021 + 1) (6243301900419072 - 2 ^ 52)"
    by (rule round_double_normal_eqI2[where k=6243301900419072]) simp_all
  then show ?thesis by (simp add: dec_lit_def mk_double_def)
qed

lemma dec_lit_C2: "dec_lit 142860682030941723212 (- 26) = 0x3EB7F7D1CF79ABCA"
proof -
  have "round_double False (142860682030941723212 * 2 ^ (1002 + 72)) (10 ^ 26) = mk_double False (1002 + 1) (6746404965428170 - 2 ^ 52)"
    by (rule round_double_normal_eqI2[where k=6746404965428170]) simp_all
  then show ?thesis by (simp add: dec_lit_def mk_double_def)
qed


lemma MAXLOG_bits: "MAXLOG = 0x4086232BDD7ABCD2"
  by (simp add: MAXLOG_def dec_lit_MAXLOG)

lemma MINLOG_bits: "MINLOG = 0xC086232BDD7ABCD2"
  by (simp add: MINLOG_def dec_lit_MAXLOG dneg_def sign_of_def expo_of_def frac_of_def mk_double_def)

lemma LOG2E_bits: "LOG2E = 0x3FF71547652B82FE"
  by (simp add: LOG2E_def dec_lit_LOG2E)

lemma INFINITY_bits: "INFINITY = 0x7FEFFFFFFFFFFFFF"
  by (simp add: INFINITY_def dec_lit_INFINITY)

lemma double_of_int_zero: "double_of_int 0 = 0"
proof -
  have "round_double False 0 1 = mk_double False 0 0"
    by (rule round_double_sub_eqI[where k=0]) simp_all
  then show ?thesis by (simp add: double_of_int_def mk_double_def)
qed

section \<open>The reductions\<close>

lemma dmul_commute: "dmul x y = dmul y x"
proof -
  have s: "(sign_of x \<noteq> sign_of y) = (sign_of y \<noteq> sign_of x)" by blast
  have m: "mag x * mag y = mag y * mag x" by (rule mult.commute)
  show ?thesis unfolding dmul_def s m by auto
qed

lemma vecdot_loop_commute: "vecdot_loop m x y n i s = vecdot_loop m y x n i s"
proof (induction m x y n i s rule: vecdot_loop.induct)
  case (1 m x y n i s)
  show ?case
  proof (cases "i < n")
    case False
    then show ?thesis by (simp add: vecdot_loop.simps[of m _ _ n i s])
  next
    case True
    show ?thesis
    proof (cases "m (x + nat i)")
      case None
      then show ?thesis
        using True by (simp add: vecdot_loop.simps[of m _ _ n i s] split: option.splits)
    next
      case (Some xi)
      note xi = this
      show ?thesis
      proof (cases "m (y + nat i)")
        case None
        then show ?thesis
          using True xi by (simp add: vecdot_loop.simps[of m _ _ n i s])
      next
        case (Some yi)
        then show ?thesis
          using True xi "1.IH"[OF True refl xi Some]
          by (simp add: vecdot_loop.simps[of m _ _ n i s] dmul_commute[of yi xi])
      qed
    qed
  qed
qed

lemma vecdot_loop_fold:
  assumes "vec_at m x xs" "vec_at m y ys" "length xs = nat n" "length ys = nat n" "0 \<le> i" "i \<le> n"
  shows "vecdot_loop m x y n i s =
     Some (foldl (\<lambda>a j. dadd a (dmul (xs ! j) (ys ! j))) s [nat i..<nat n], m)"
  using assms
proof (induction m x y n i s rule: vecdot_loop.induct)
  case (1 m x y n i s)
  show ?case
  proof (cases "i < n")
    case False
    then show ?thesis using "1.prems" by (subst vecdot_loop.simps) simp
  next
    case True
    then have lt: "nat i < nat n" using "1.prems" by simp
    have xi: "m (x + nat i) = Some (xs ! nat i)" and yi: "m (y + nat i) = Some (ys ! nat i)"
      using "1.prems" lt by (simp_all add: vec_at_def)
    have up: "[nat i..<nat n] = nat i # [nat (i + 1)..<nat n]"
      using lt "1.prems" by (simp add: upt_conv_Cons nat_add_distrib)
    have "vecdot_loop m x y n (i + 1) (dadd s (dmul (xs ! nat i) (ys ! nat i))) =
        Some (foldl (\<lambda>a j. dadd a (dmul (xs ! j) (ys ! j))) (dadd s (dmul (xs ! nat i) (ys ! nat i)))
          [nat (i + 1)..<nat n], m)"
      using "1.prems" True by (intro "1.IH"[OF True refl xi yi]) simp_all
    then show ?thesis
      using True xi yi by (simp add: vecdot_loop.simps[of m x y n i s] up)
  qed
qed

lemma vecsumlog_loop_fold:
  assumes "vec_at m x xs" "length xs = nat n" "0 \<le> i" "i \<le> n"
  shows "vecsumlog_loop lg m x n i s = Some (foldl (\<lambda>a j. dadd a (lg (xs ! j))) s [nat i..<nat n], m)"
  using assms
proof (induction lg m x n i s rule: vecsumlog_loop.induct)
  case (1 lg m x n i s)
  show ?case
  proof (cases "i < n")
    case False
    then show ?thesis using "1.prems" by (subst vecsumlog_loop.simps) simp
  next
    case True
    then have lt: "nat i < nat n" using "1.prems" by simp
    have xi: "m (x + nat i) = Some (xs ! nat i)"
      using "1.prems" lt by (simp_all add: vec_at_def)
    have up: "[nat i..<nat n] = nat i # [nat (i + 1)..<nat n]"
      using lt "1.prems" by (simp add: upt_conv_Cons nat_add_distrib)
    have "vecsumlog_loop lg m x n (i + 1) (dadd s (lg (xs ! nat i))) =
        Some (foldl (\<lambda>a j. dadd a (lg (xs ! j))) (dadd s (lg (xs ! nat i))) [nat (i + 1)..<nat n], m)"
      using "1.prems" True by (intro "1.IH"[OF True xi]) simp_all
    then show ?thesis
      using True xi by (simp add: vecsumlog_loop.simps[of lg m x n i s] up)
  qed
qed

lemma vecsum_loop_fold:
  assumes "vec_at m x xs" "length xs = nat n" "0 \<le> i" "i \<le> n"
  shows "vecsum_loop m x n i s = Some (foldl (\<lambda>a j. dadd a (xs ! j)) s [nat i..<nat n], m)"
  using assms
proof (induction m x n i s rule: vecsum_loop.induct)
  case (1 m x n i s)
  show ?case
  proof (cases "i < n")
    case False
    then show ?thesis using "1.prems" by (subst vecsum_loop.simps) simp
  next
    case True
    then have lt: "nat i < nat n" using "1.prems" by simp
    have xi: "m (x + nat i) = Some (xs ! nat i)"
      using "1.prems" lt by (simp_all add: vec_at_def)
    have up: "[nat i..<nat n] = nat i # [nat (i + 1)..<nat n]"
      using lt "1.prems" by (simp add: upt_conv_Cons nat_add_distrib)
    have "vecsum_loop m x n (i + 1) (dadd s (xs ! nat i)) =
        Some (foldl (\<lambda>a j. dadd a (xs ! j)) (dadd s (xs ! nat i)) [nat (i + 1)..<nat n], m)"
      using "1.prems" True by (intro "1.IH"[OF True xi]) simp_all
    then show ?thesis
      using True xi by (simp add: vecsum_loop.simps[of m x n i s] up)
  qed
qed

lemma vecdot_loop_frame: "vecdot_loop m x y n i s = Some (r, m') \<Longrightarrow> m' = m"
proof (induction m x y n i s rule: vecdot_loop.induct)
  case (1 m x y n i s)
  show ?case
  proof (cases "i < n")
    case False
    then show ?thesis using "1.prems" by (simp add: vecdot_loop.simps[of m x y n i s])
  next
    case True
    then obtain xi yi where xi: "m (x + nat i) = Some xi" and yi: "m (y + nat i) = Some yi"
      and r: "vecdot_loop m x y n (i + 1) (dadd s (dmul xi yi)) = Some (r, m')"
      using "1.prems" by (auto simp: vecdot_loop.simps[of m x y n i s] split: option.splits)
    show ?thesis by (rule "1.IH"[OF True refl xi yi r])
  qed
qed

lemma vecsum_loop_frame: "vecsum_loop m x n i s = Some (r, m') \<Longrightarrow> m' = m"
proof (induction m x n i s rule: vecsum_loop.induct)
  case (1 m x n i s)
  show ?case
  proof (cases "i < n")
    case False
    then show ?thesis using "1.prems" by (simp add: vecsum_loop.simps[of m x n i s])
  next
    case True
    then obtain xi where xi: "m (x + nat i) = Some xi"
      and r: "vecsum_loop m x n (i + 1) (dadd s xi) = Some (r, m')"
      using "1.prems" by (auto simp: vecsum_loop.simps[of m x n i s] split: option.splits)
    show ?thesis by (rule "1.IH"[OF True xi r])
  qed
qed

lemma vecsumlog_loop_frame: "vecsumlog_loop lg m x n i s = Some (r, m') \<Longrightarrow> m' = m"
proof (induction lg m x n i s rule: vecsumlog_loop.induct)
  case (1 lg m x n i s)
  show ?case
  proof (cases "i < n")
    case False
    then show ?thesis using "1.prems" by (simp add: vecsumlog_loop.simps[of lg m x n i s])
  next
    case True
    then obtain xi where xi: "m (x + nat i) = Some xi"
      and r: "vecsumlog_loop lg m x n (i + 1) (dadd s (lg xi)) = Some (r, m')"
      using "1.prems" by (auto simp: vecsumlog_loop.simps[of lg m x n i s] split: option.splits)
    show ?thesis by (rule "1.IH"[OF True xi r])
  qed
qed

section \<open>Claims about the reductions\<close>

text \<open>C5: for \<open>n \<ge> 0\<close> and buffers holding \<open>n\<close> elements, each reduction returns the
  left-to-right fold over the indices \<open>0, 1, ..., n - 1\<close> from the accumulator \<open>0.0\<close>:
  \<open>vecdot\<close> adds \<open>x[i] * y[i]\<close>, \<open>vecsum\<close> adds \<open>x[i]\<close>, \<open>vecsumlog\<close> adds
  \<open>log(x[i])\<close>, in increasing index order.\<close>

theorem reductions_fold_left:
  assumes "vec_at m x xs" and "vec_at m y ys"
    and "length xs = nat n" and "length ys = nat n" and "0 \<le> n"
  shows "vecdot m x y n =
           Some (foldl (\<lambda>s i. dadd s (dmul (xs ! i) (ys ! i))) (dec_lit 0 0) [0..<nat n], m)
       \<and> vecsum m x n = Some (foldl (\<lambda>s i. dadd s (xs ! i)) (dec_lit 0 0) [0..<nat n], m)
       \<and> vecsumlog lg m x n =
           Some (foldl (\<lambda>s i. dadd s (lg (xs ! i))) (dec_lit 0 0) [0..<nat n], m)"
proof (intro conjI)
  have z: "double_of_int 0 = dec_lit 0 0" by (simp add: double_of_int_zero dec_lit_zero)
  have "vecdot_loop m x y n 0 (dec_lit 0 0) =
      Some (foldl (\<lambda>s i. dadd s (dmul (xs ! i) (ys ! i))) (dec_lit 0 0) [nat 0..<nat n], m)"
    by (rule vecdot_loop_fold) (use assms in simp_all)
  then show "vecdot m x y n =
      Some (foldl (\<lambda>s i. dadd s (dmul (xs ! i) (ys ! i))) (dec_lit 0 0) [0..<nat n], m)"
    by (simp add: vecdot_def z)
  have "vecsum_loop m x n 0 (dec_lit 0 0) =
      Some (foldl (\<lambda>s i. dadd s (xs ! i)) (dec_lit 0 0) [nat 0..<nat n], m)"
    by (rule vecsum_loop_fold) (use assms in simp_all)
  then show "vecsum m x n = Some (foldl (\<lambda>s i. dadd s (xs ! i)) (dec_lit 0 0) [0..<nat n], m)"
    by (simp add: vecsum_def)
  have "vecsumlog_loop lg m x n 0 (dec_lit 0 0) =
      Some (foldl (\<lambda>s i. dadd s (lg (xs ! i))) (dec_lit 0 0) [nat 0..<nat n], m)"
    by (rule vecsumlog_loop_fold) (use assms in simp_all)
  then show "vecsumlog lg m x n =
      Some (foldl (\<lambda>s i. dadd s (lg (xs ! i))) (dec_lit 0 0) [0..<nat n], m)"
    by (simp add: vecsumlog_def)
qed

theorem reductions_fold_left_witness:
  "vecdot (\<lambda>a. Some 0) 0 2 2 =
       Some (foldl (\<lambda>s i. dadd s (dmul ([0, 0] ! i) ([0, 0] ! i))) (dec_lit 0 0) [0..<nat 2], \<lambda>a. Some 0)
   \<and> vecsum (\<lambda>a. Some 0) 0 2 =
       Some (foldl (\<lambda>s i. dadd s ([0, 0] ! i)) (dec_lit 0 0) [0..<nat 2], \<lambda>a. Some 0)
   \<and> vecsumlog (\<lambda>v. v) (\<lambda>a. Some 0) 0 2 =
       Some (foldl (\<lambda>s i. dadd s ((\<lambda>v. v) ([0, 0] ! i))) (dec_lit 0 0) [0..<nat 2], \<lambda>a. Some 0)"
proof (rule reductions_fold_left)
  show "vec_at (\<lambda>a. Some 0) 0 [0, 0]" by (simp add: vec_at_def nth_Cons split: nat.split)
  show "vec_at (\<lambda>a. Some 0) 2 [0, 0]" by (simp add: vec_at_def nth_Cons split: nat.split)
qed simp_all

text \<open>C10: a call of \<open>vecdot\<close>, \<open>vecsum\<close> or \<open>vecsumlog\<close> that returns leaves the whole
  memory as it was, for every \<open>n\<close>: every \<open>x[i]\<close> and \<open>y[i]\<close> keeps its value.\<close>

theorem reductions_leave_memory:
  "(vecdot m x y n = Some (s, m') \<longrightarrow> m' = m)
   \<and> (vecsum m x n = Some (s, m') \<longrightarrow> m' = m)
   \<and> (vecsumlog lg m x n = Some (s, m') \<longrightarrow> m' = m)"
  unfolding vecdot_def vecsum_def vecsumlog_def
  by (intro conjI impI) (erule vecdot_loop_frame vecsum_loop_frame vecsumlog_loop_frame)+

theorem reductions_leave_memory_witness:
  "vecdot (\<lambda>a. Some 0) 0 2 2 = Some (dadd (dadd 0 (dmul 0 0)) (dmul 0 0), \<lambda>a. Some 0)
   \<and> vecsum (\<lambda>a. Some 0) 0 2 = Some (dadd (dadd 0 0) 0, \<lambda>a. Some 0)
   \<and> vecsumlog (\<lambda>v. v) (\<lambda>a. Some 0) 0 2 = Some (dadd (dadd 0 0) 0, \<lambda>a. Some 0)"
proof -
  let ?M = "\<lambda>a::nat. Some (0::double)"
  have v: "vec_at ?M p [0, 0]" for p by (simp add: vec_at_def nth_Cons split: nat.split)
  have "vecdot_loop ?M 0 2 2 0 0 =
      Some (foldl (\<lambda>a j. dadd a (dmul ([0, 0] ! j) ([0, 0] ! j))) 0 [nat 0..<nat 2], ?M)"
    by (rule vecdot_loop_fold) (simp_all add: v)
  then obtain m1 where d: "vecdot ?M 0 2 2 = Some (dadd (dadd 0 (dmul 0 0)) (dmul 0 0), m1)"
    by (simp add: vecdot_def double_of_int_zero upt_rec nth_Cons')
  have "vecsum_loop ?M 0 2 0 0 = Some (foldl (\<lambda>a j. dadd a ([0, 0] ! j)) 0 [nat 0..<nat 2], ?M)"
    by (rule vecsum_loop_fold) (simp_all add: v)
  then obtain m2 where s: "vecsum ?M 0 2 = Some (dadd (dadd 0 0) 0, m2)"
    by (simp add: vecsum_def dec_lit_zero upt_rec nth_Cons')
  have "vecsumlog_loop (\<lambda>v. v) ?M 0 2 0 0 =
      Some (foldl (\<lambda>a j. dadd a ((\<lambda>v. v) ([0, 0] ! j))) 0 [nat 0..<nat 2], ?M)"
    by (rule vecsumlog_loop_fold) (simp_all add: v)
  then obtain m3 where l: "vecsumlog (\<lambda>v. v) ?M 0 2 = Some (dadd (dadd 0 0) 0, m3)"
    by (simp add: vecsumlog_def dec_lit_zero upt_rec nth_Cons')
  have "m1 = ?M"
    using reductions_leave_memory[of ?M 0 2 2 "dadd (dadd 0 (dmul 0 0)) (dmul 0 0)" m1] d by blast
  moreover have "m2 = ?M"
    using reductions_leave_memory[of ?M 0 2 2 "dadd (dadd 0 0) 0" m2] s by blast
  moreover have "m3 = ?M"
    using reductions_leave_memory[of ?M 0 2 2 "dadd (dadd 0 0) 0" m3 "\<lambda>v. v"] l by blast
  ultimately show ?thesis using d s l by simp
qed

section \<open>vecexp and veczero\<close>

lemma vecexp_loop_stop: "\<not> i < n \<Longrightarrow> vecexp_loop m x n i calls = Some (m, calls)"
  by (subst vecexp_loop.simps) simp

lemma vecexp_loop_unalloc: "i < n \<Longrightarrow> m (x + nat i) = None \<Longrightarrow> vecexp_loop m x n i calls = None"
  by (subst vecexp_loop.simps) simp

lemma vecexp_loop_zero:
  "i < n \<Longrightarrow> m (x + nat i) = Some xi \<Longrightarrow> deq xi (dec_lit 0 0) \<Longrightarrow>
     vecexp_loop m x n i calls = vecexp_loop (m(x + nat i \<mapsto> dec_lit 1 0)) x n (i + 1) calls"
  by (subst vecexp_loop.simps) simp

lemma vecexp_loop_call:
  "i < n \<Longrightarrow> m (x + nat i) = Some xi \<Longrightarrow> \<not> deq xi (dec_lit 0 0) \<Longrightarrow>
     vecexp_loop m x n i calls =
       (case fastexp xi of None \<Rightarrow> None
        | Some e \<Rightarrow> vecexp_loop (m(x + nat i \<mapsto> e)) x n (i + 1) (calls @ [xi]))"
  by (subst vecexp_loop.simps) simp

lemma vecexp_loop_result:
  assumes "vecexp_loop m x n i calls = Some (m', calls')" "0 \<le> i"
  shows "(\<forall>k. nat i \<le> k \<and> int k < n \<longrightarrow>
            (\<exists>v. m (x + k) = Some v \<and> m' (x + k) \<noteq> None \<and>
                 m' (x + k) = (if deq v (dec_lit 0 0) then Some (dec_lit 1 0) else fastexp v)))
       \<and> (\<forall>a. (\<forall>k. nat i \<le> k \<and> int k < n \<longrightarrow> a \<noteq> x + k) \<longrightarrow> m' a = m a)
       \<and> calls' = calls @ filter (\<lambda>v. \<not> deq v (dec_lit 0 0)) (map (\<lambda>k. the (m (x + k))) [nat i..<nat n])"
  using assms
proof (induction m x n i calls rule: vecexp_loop.induct)
  case (1 m x n i calls)
  show ?case
  proof (cases "i < n")
    case False
    then have eq: "m' = m" "calls' = calls" and le: "nat n \<le> nat i"
      using "1.prems" by (simp_all add: vecexp_loop_stop)
    have nk: "\<not> (nat i \<le> k \<and> int k < n)" for k using False "1.prems"(2) by linarith
    show ?thesis
    proof (intro conjI allI impI)
      fix k assume "nat i \<le> k \<and> int k < n"
      then show "\<exists>v. m (x + k) = Some v \<and> m' (x + k) \<noteq> None \<and>
                 m' (x + k) = (if deq v (dec_lit 0 0) then Some (dec_lit 1 0) else fastexp v)"
        using nk[of k] by simp
    next
      fix a show "m' a = m a" by (simp add: eq)
    next
      show "calls' = calls @ filter (\<lambda>v. \<not> deq v (dec_lit 0 0)) (map (\<lambda>k. the (m (x + k))) [nat i..<nat n])"
        using le by (simp add: eq)
    qed
  next
    case True
    then have lt: "nat i < nat n" using "1.prems" by simp
    have up: "[nat i..<nat n] = nat i # [nat (i + 1)..<nat n]"
      using lt "1.prems" by (simp add: upt_conv_Cons nat_add_distrib)
    have ni: "nat (i + 1) = Suc (nat i)" using "1.prems" by (simp add: nat_add_distrib)
    obtain xi where xi: "m (x + nat i) = Some xi"
      using "1.prems"(1) True vecexp_loop_unalloc[of i n m x calls] by (cases "m (x + nat i)") simp_all
    define e where "e = (if deq xi (dec_lit 0 0) then Some (dec_lit 1 0) else fastexp xi)"
    define cs where "cs = (if deq xi (dec_lit 0 0) then calls else calls @ [xi])"
    obtain ev where ev: "e = Some ev"
      and rec: "vecexp_loop (m(x + nat i \<mapsto> ev)) x n (i + 1) cs = Some (m', calls')"
    proof (cases "deq xi (dec_lit 0 0)")
      case z: True
      have "vecexp_loop (m(x + nat i \<mapsto> dec_lit 1 0)) x n (i + 1) calls = Some (m', calls')"
        using "1.prems"(1) unfolding vecexp_loop_zero[where m=m and x=x and i=i, OF True xi z] .
      then show thesis using z by (intro that[of "dec_lit 1 0"]) (simp_all add: e_def cs_def)
    next
      case z: False
      have c: "(case fastexp xi of None \<Rightarrow> None
        | Some e \<Rightarrow> vecexp_loop (m(x + nat i \<mapsto> e)) x n (i + 1) (calls @ [xi])) = Some (m', calls')"
        using "1.prems"(1) unfolding vecexp_loop_call[where m=m and x=x and i=i, OF True xi z] .
      then obtain e' where e': "fastexp xi = Some e'" by (cases "fastexp xi") simp_all
      have "vecexp_loop (m(x + nat i \<mapsto> e')) x n (i + 1) (calls @ [xi]) = Some (m', calls')"
        using c unfolding e' by simp
      then show thesis using z e' by (intro that[of e']) (simp_all add: e_def cs_def)
    qed
    have p: "0 \<le> i + 1" using "1.prems"(2) by simp
    have IH: "(\<forall>k. nat (i + 1) \<le> k \<and> int k < n \<longrightarrow>
            (\<exists>v. (m(x + nat i \<mapsto> ev)) (x + k) = Some v \<and> m' (x + k) \<noteq> None \<and>
                 m' (x + k) = (if deq v (dec_lit 0 0) then Some (dec_lit 1 0) else fastexp v)))
       \<and> (\<forall>a. (\<forall>k. nat (i + 1) \<le> k \<and> int k < n \<longrightarrow> a \<noteq> x + k) \<longrightarrow> m' a = (m(x + nat i \<mapsto> ev)) a)
       \<and> calls' = cs @ filter (\<lambda>v. \<not> deq v (dec_lit 0 0))
            (map (\<lambda>k. the ((m(x + nat i \<mapsto> ev)) (x + k))) [nat (i + 1)..<nat n])"
    proof (cases "deq xi (dec_lit 0 0)")
      case True
      with ev have e1: "ev = dec_lit 1 0" by (simp add: e_def)
      have c1: "cs = calls" using True by (simp add: cs_def)
      have r1: "vecexp_loop (m(x + nat i \<mapsto> dec_lit 1 0)) x n (i + 1) calls = Some (m', calls')"
        using rec unfolding e1 c1 .
      show ?thesis unfolding e1 c1 by (rule "1.IH"(1)[OF \<open>i < n\<close> xi True r1 p])
    next
      case False
      with ev have e1: "fastexp xi = Some ev" by (simp add: e_def)
      have c1: "cs = calls @ [xi]" using False by (simp add: cs_def)
      have r1: "vecexp_loop (m(x + nat i \<mapsto> ev)) x n (i + 1) (calls @ [xi]) = Some (m', calls')"
        using rec unfolding c1 .
      show ?thesis unfolding c1 by (rule "1.IH"(2)[OF \<open>i < n\<close> xi False e1 r1 p])
    qed
    note I1 = IH[THEN conjunct1] and I2 = IH[THEN conjunct2, THEN conjunct1]
      and I3 = IH[THEN conjunct2, THEN conjunct2]
    have "\<forall>k. nat (i + 1) \<le> k \<and> int k < n \<longrightarrow> x + nat i \<noteq> x + k" using ni by simp
    then have "m' (x + nat i) = (m(x + nat i \<mapsto> ev)) (x + nat i)" by (rule I2[THEN spec, THEN mp])
    then have same: "m' (x + nat i) = Some ev" by simp
    have A: "\<forall>k. nat i \<le> k \<and> int k < n \<longrightarrow>
            (\<exists>v. m (x + k) = Some v \<and> m' (x + k) \<noteq> None \<and>
                 m' (x + k) = (if deq v (dec_lit 0 0) then Some (dec_lit 1 0) else fastexp v))"
    proof (intro allI impI)
      fix k assume k: "nat i \<le> k \<and> int k < n"
      show "\<exists>v. m (x + k) = Some v \<and> m' (x + k) \<noteq> None \<and>
                 m' (x + k) = (if deq v (dec_lit 0 0) then Some (dec_lit 1 0) else fastexp v)"
      proof (cases "k = nat i")
        case True
        have "m' (x + k) = (if deq xi (dec_lit 0 0) then Some (dec_lit 1 0) else fastexp xi)"
          unfolding True same ev[symmetric] e_def ..
        then show ?thesis using xi same True by blast
      next
        case False
        then have kk: "nat (i + 1) \<le> k \<and> int k < n" using k ni by simp
        obtain v where v: "(m(x + nat i \<mapsto> ev)) (x + k) = Some v" "m' (x + k) \<noteq> None"
          "m' (x + k) = (if deq v (dec_lit 0 0) then Some (dec_lit 1 0) else fastexp v)"
          using I1[THEN spec, THEN mp, OF kk] by (elim exE conjE)
        have "m (x + k) = Some v" using v(1) False by simp
        then show ?thesis using v by blast
      qed
    qed
    have B: "\<forall>a. (\<forall>k. nat i \<le> k \<and> int k < n \<longrightarrow> a \<noteq> x + k) \<longrightarrow> m' a = m a"
    proof (intro allI impI)
      fix a assume a: "\<forall>k. nat i \<le> k \<and> int k < n \<longrightarrow> a \<noteq> x + k"
      then have ne: "a \<noteq> x + nat i" using True "1.prems"(2) by simp
      have "\<forall>k. nat (i + 1) \<le> k \<and> int k < n \<longrightarrow> a \<noteq> x + k" using a ni by simp
      then have "m' a = (m(x + nat i \<mapsto> ev)) a" by (rule I2[THEN spec, THEN mp])
      then show "m' a = m a" using ne by simp
    qed
    have meq: "map (\<lambda>k. the ((m(x + nat i \<mapsto> ev)) (x + k))) [nat (i + 1)..<nat n]
         = map (\<lambda>k. the (m (x + k))) [nat (i + 1)..<nat n]"
      using ni by (intro map_cong) simp_all
    have "calls' = cs @ filter (\<lambda>v. \<not> deq v (dec_lit 0 0))
            (map (\<lambda>k. the (m (x + k))) [nat (i + 1)..<nat n])"
      using I3 unfolding meq .
    then have C: "calls' = calls @ filter (\<lambda>v. \<not> deq v (dec_lit 0 0)) (map (\<lambda>k. the (m (x + k))) [nat i..<nat n])"
      using xi by (simp add: up cs_def)
    show ?thesis by (intro conjI A B C)
  qed
qed



lemma vecexp_loop_defined:
  assumes "\<forall>k. nat i \<le> k \<and> int k < n \<longrightarrow>
      (\<exists>v. m (x + k) = Some v \<and> (deq v (dec_lit 0 0) \<or> fastexp v \<noteq> None))" "0 \<le> i"
  shows "vecexp_loop m x n i calls \<noteq> None"
  using assms
proof (induction m x n i calls rule: vecexp_loop.induct)
  case (1 m x n i calls)
  show ?case
  proof (cases "i < n")
    case False
    then show ?thesis by (subst vecexp_loop.simps) simp
  next
    case True
    have ni: "nat (i + 1) = Suc (nat i)" using "1.prems" by (simp add: nat_add_distrib)
    have "nat i \<le> nat i \<and> int (nat i) < n" using True "1.prems"(2) by simp
    with "1.prems"(1) obtain xi where xi: "m (x + nat i) = Some xi"
      and d: "deq xi (dec_lit 0 0) \<or> fastexp xi \<noteq> None" by blast
    have rest: "\<forall>k. nat (i + 1) \<le> k \<and> int k < n \<longrightarrow>
      (\<exists>v. (m(x + nat i \<mapsto> ev)) (x + k) = Some v \<and> (deq v (dec_lit 0 0) \<or> fastexp v \<noteq> None))" for ev
    proof (intro allI impI)
      fix k assume "nat (i + 1) \<le> k \<and> int k < n"
      then have k: "nat i \<le> k \<and> int k < n" and ne: "k \<noteq> nat i" using ni by simp_all
      from "1.prems"(1) k obtain v where v: "m (x + k) = Some v"
        "deq v (dec_lit 0 0) \<or> fastexp v \<noteq> None" by blast
      have "(m(x + nat i \<mapsto> ev)) (x + k) = Some v" using v(1) ne by simp
      then show "\<exists>v. (m(x + nat i \<mapsto> ev)) (x + k) = Some v \<and> (deq v (dec_lit 0 0) \<or> fastexp v \<noteq> None)"
        using v(2) by blast
    qed
    have p: "0 \<le> i + 1" using "1.prems"(2) by simp
    show ?thesis
    proof (cases "deq xi (dec_lit 0 0)")
      case z: True
      have "vecexp_loop (m(x + nat i \<mapsto> dec_lit 1 0)) x n (i + 1) calls \<noteq> None"
        by (rule "1.IH"(1)[OF True xi z rest p])
      then show ?thesis using True xi z by (subst vecexp_loop.simps) simp
    next
      case z: False
      with d obtain ev where ev: "fastexp xi = Some ev" by auto
      have "vecexp_loop (m(x + nat i \<mapsto> ev)) x n (i + 1) (calls @ [xi]) \<noteq> None"
        by (rule "1.IH"(2)[OF True xi z ev rest p])
      then show ?thesis using True xi z ev by (subst vecexp_loop.simps) simp
    qed
  qed
qed



lemma upt_8: "[0..<8] = [0, 1, 2, 3, 4, 5, 6, 7]"
  by (simp add: upt_rec)

lemma double_of_bytes_const0: "double_of_bytes (replicate 8 0) = 0"
  by (simp add: double_of_bytes_def upt_8)

lemma length_bytes_of_double: "length (bytes_of_double w) = 8"
  by (simp add: bytes_of_double_def)

lemma memset_cells_result:
  assumes "\<forall>j<k. m (p + j) \<noteq> None"
  shows "\<exists>m'. memset_cells m p c k = Some m'
      \<and> (\<forall>j<k. m' (p + j) = Some (double_of_bytes (replicate 8 c)))
      \<and> (\<forall>a. a < p \<or> p + k \<le> a \<longrightarrow> m' a = m a)"
  using assms
proof (induction k arbitrary: m p)
  case 0
  then show ?case by simp
next
  case (Suc k)
  from Suc.prems obtain w where w: "m p = Some w" by force
  define m1 where "m1 = m(p \<mapsto> double_of_bytes (map (\<lambda>b. c) (bytes_of_double w)))"
  have v: "double_of_bytes (map (\<lambda>b. c) (bytes_of_double w)) = double_of_bytes (replicate 8 c)"
    by (simp add: map_replicate_const length_bytes_of_double)
  have "\<forall>j<k. m1 (Suc p + j) \<noteq> None"
  proof (intro allI impI)
    fix j assume "j < k"
    then have "m (p + Suc j) \<noteq> None" using Suc.prems by blast
    then show "m1 (Suc p + j) \<noteq> None" by (simp add: m1_def)
  qed
  from Suc.IH[OF this] obtain m' where r: "memset_cells m1 (Suc p) c k = Some m'"
    and a: "\<forall>j<k. m' (Suc p + j) = Some (double_of_bytes (replicate 8 c))"
    and f: "\<forall>a. a < Suc p \<or> Suc p + k \<le> a \<longrightarrow> m' a = m1 a" by blast
  have "memset_cells m p c (Suc k) = Some m'" using w r by (simp add: m1_def)
  moreover have "\<forall>j<Suc k. m' (p + j) = Some (double_of_bytes (replicate 8 c))"
  proof (intro allI impI)
    fix j assume j: "j < Suc k"
    show "m' (p + j) = Some (double_of_bytes (replicate 8 c))"
    proof (cases j)
      case 0
      then show ?thesis using f v by (simp add: m1_def)
    next
      case (Suc j')
      then show ?thesis using a j by simp
    qed
  qed
  moreover have "\<forall>a. a < p \<or> p + Suc k \<le> a \<longrightarrow> m' a = m a"
    using f by (auto simp: m1_def)
  ultimately show ?case by blast
qed

lemma fields_zero: "expo_of 0 = 0" "frac_of 0 = 0" "sign_of 0 = False" "mag 0 = 0" "sval 0 = 0"
  by (simp_all add: expo_of_def frac_of_def sign_of_def mag_def sval_def)

lemma dzero_bits: "dzero False = 0" "dzero True = 0x8000000000000000"
  by (simp_all add: dzero_def mk_double_def)

lemma fields_neg_zero:
  "expo_of (dzero True) = 0" "frac_of (dzero True) = 0" "sign_of (dzero True) = True"
  "mag (dzero True) = 0" "sval (dzero True) = 0"
proof -
  have f: "expo_of (mk_double True 0 0) = 0" "frac_of (mk_double True 0 0) = 0"
    "sign_of (mk_double True 0 0) = True"
    by (rule mk_double_fields; simp)+
  then show "expo_of (dzero True) = 0" "frac_of (dzero True) = 0" "sign_of (dzero True) = True"
    by (simp_all add: dzero_def)
  then show "mag (dzero True) = 0" "sval (dzero True) = 0" by (simp_all add: mag_def sval_def)
qed

lemma deq_zero_iff: "deq v (dec_lit 0 0) \<longleftrightarrow> \<not> is_nan v \<and> mag v = 0"
  by (auto simp: deq_def dec_lit_zero is_nan_def fields_zero sval_def)

lemma deq_neg_zero: "deq (dzero True) (dec_lit 0 0)"
  by (simp add: deq_zero_iff is_nan_def fields_neg_zero)

lemma deq_pos_zero: "deq 0 (dec_lit 0 0)"
  by (simp add: deq_zero_iff is_nan_def fields_zero)

lemma vecexp_result:
  assumes v: "vec_at m x xs" and l: "length xs = nat n" and r: "vecexp_loop m x n 0 [] = Some (m', calls)"
  shows "\<forall>i<length xs. m' (x + i) =
            (if deq (xs ! i) (dec_lit 0 0) then Some (dec_lit 1 0) else fastexp (xs ! i))"
    and "\<forall>a. a < x \<or> x + length xs \<le> a \<longrightarrow> m' a = m a"
    and "calls = filter (\<lambda>v. \<not> deq v (dec_lit 0 0)) xs"
proof -
  note R = vecexp_loop_result[OF r, simplified]
  show "\<forall>i<length xs. m' (x + i) =
            (if deq (xs ! i) (dec_lit 0 0) then Some (dec_lit 1 0) else fastexp (xs ! i))"
  proof (intro allI impI)
    fix i assume i: "i < length xs"
    then have "int i < n" using l by simp
    with R obtain w where w: "m (x + i) = Some w"
      "m' (x + i) = (if deq w (dec_lit 0 0) then Some (dec_lit 1 0) else fastexp w)"
      by blast
    moreover have "m (x + i) = Some (xs ! i)" using v i by (simp add: vec_at_def)
    ultimately show "m' (x + i) =
        (if deq (xs ! i) (dec_lit 0 0) then Some (dec_lit 1 0) else fastexp (xs ! i))" by simp
  qed
  show "\<forall>a. a < x \<or> x + length xs \<le> a \<longrightarrow> m' a = m a"
  proof (intro allI impI)
    fix a assume a: "a < x \<or> x + length xs \<le> a"
    have "\<forall>k. int k < n \<longrightarrow> a \<noteq> x + k"
    proof (intro allI impI)
      fix k assume "int k < n"
      then have "k < length xs" using l by simp
      then show "a \<noteq> x + k" using a by auto
    qed
    with R show "m' a = m a" by blast
  qed
  have "map (\<lambda>k. the (m (x + k))) [0..<nat n] = xs"
    using v l by (intro nth_equalityI) (simp_all add: vec_at_def)
  with R show "calls = filter (\<lambda>v. \<not> deq v (dec_lit 0 0)) xs" by simp
qed

lemma vecexp_defined:
  assumes v: "vec_at m x xs" and l: "length xs = nat n"
    and d: "\<forall>v\<in>set xs. deq v (dec_lit 0 0) \<or> fastexp v \<noteq> None"
  shows "vecexp_loop m x n 0 [] \<noteq> None"
proof (rule vecexp_loop_defined)
  show "\<forall>k. nat 0 \<le> k \<and> int k < n \<longrightarrow>
      (\<exists>v. m (x + k) = Some v \<and> (deq v (dec_lit 0 0) \<or> fastexp v \<noteq> None))"
  proof (intro allI impI)
    fix k assume "nat 0 \<le> k \<and> int k < n"
    then have k: "k < length xs" using l by simp
    then have "m (x + k) = Some (xs ! k)" using v by (simp add: vec_at_def)
    moreover have "xs ! k \<in> set xs" using k by simp
    ultimately show "\<exists>v. m (x + k) = Some v \<and> (deq v (dec_lit 0 0) \<or> fastexp v \<noteq> None)"
      using d by blast
  qed
qed simp

section \<open>Results of the arithmetic operations\<close>

lemma mag_eqI: "expo_of w = Suc e \<Longrightarrow> 2 ^ 52 + frac_of w = k \<Longrightarrow> mag w = k * 2 ^ e"
  by (simp add: mag_def)

lemma mag_inf_ge:
  assumes "expo_of w = 2047"
  shows "2 ^ 2098 \<le> mag w"
proof -
  have "(2::int) ^ 2098 = 2 ^ 52 * 2 ^ 2046" by (simp del: power_numeral add: power_add[symmetric])
  also have "\<dots> \<le> (2 ^ 52 + frac_of w) * 2 ^ 2046"
    using frac_of_bounds(1)[of w] by (intro mult_right_mono) simp_all
  finally show ?thesis using assms by (simp del: power_numeral add: mag_def)
qed

lemma round_double_bound:
  assumes N: "0 \<le> N" and D: "0 < D" and b: "expo_of b < 2047" and le: "N \<le> mag b * D"
  shows "expo_of (round_double s N D) < 2047"
    and "mag (round_double s N D) \<le> mag b"
    and "sign_of (round_double s N D) = s"
proof -
  obtain k sh where r: "round_mag N D = k * 2 ^ sh" and k: "0 \<le> k" "k \<le> 2 ^ 53" "sh = 0 \<or> 2 ^ 52 \<le> k"
    using round_mag_repr[OF N D] by blast
  have rb: "round_mag N D \<le> mag b" by (rule round_mag_le[OF N D b le])
  also have "mag b < 2 ^ 2098" by (rule mag_finite_lt[OF b])
  finally have lt: "k * 2 ^ sh < 2 ^ 2098" unfolding r .
  note R = of_mag_repr[OF k lt, of s]
  show "expo_of (round_double s N D) < 2047" unfolding round_double_def r by (rule R)
  show "sign_of (round_double s N D) = s" unfolding round_double_def r by (rule R)
  have "mag (round_double s N D) = round_mag N D" unfolding round_double_def r by (rule R)
  then show "mag (round_double s N D) \<le> mag b" using rb by simp
qed

lemma dnan_fields: "expo_of dnan = 2047" "frac_of dnan = 2 ^ 51" "sign_of dnan = False"
  unfolding dnan_def by (rule mk_double_fields; simp)+

lemma is_nan_dnan: "is_nan dnan"
  by (simp add: is_nan_def dnan_fields)

lemma dinf_fields: "expo_of (dinf s) = 2047" "frac_of (dinf s) = 0" "sign_of (dinf s) = s"
  unfolding dinf_def by (rule mk_double_fields; simp)+

lemma dzero_fields: "expo_of (dzero s) = 0" "frac_of (dzero s) = 0" "sign_of (dzero s) = s"
  unfolding dzero_def by (rule mk_double_fields; simp)+

lemma mag_dzero: "mag (dzero s) = 0"
  by (simp add: mag_def dzero_fields)

lemma dinf_self: "is_inf x \<Longrightarrow> dinf (sign_of x) = x"
  using mk_double_of_fields[of x] by (simp add: is_inf_def dinf_def)

lemma dzero_self: "expo_of x < 2047 \<Longrightarrow> mag x = 0 \<Longrightarrow> dzero (sign_of x) = x"
  using of_mag_self[of x] by (simp add: of_mag_sub dzero_def)

lemma one_fields:
  "expo_of (dec_lit 1 0) = 1023" "frac_of (dec_lit 1 0) = 0" "sign_of (dec_lit 1 0) = False"
  by (simp_all add: dec_lit_one expo_of_def frac_of_def sign_of_def)

lemma mag_one: "mag (dec_lit 1 0) = 2 ^ 1074"
proof -
  have "mag (dec_lit 1 0) = 2 ^ 52 * 2 ^ 1022"
    by (rule mag_eqI) (simp_all add: one_fields)
  then show ?thesis by (simp del: power_numeral add: power_add[symmetric])
qed

lemma dmul_one_left:
  assumes "\<not> is_nan x"
  shows "dmul (dec_lit 1 0) x = x"
proof -
  have n1: "\<not> is_nan (dec_lit 1 0)" "\<not> is_inf (dec_lit 1 0)"
    by (simp_all add: is_nan_def is_inf_def one_fields)
  have m1: "mag (dec_lit 1 0) \<noteq> 0" by (simp add: mag_one)
  have s: "(sign_of (dec_lit 1 0) \<noteq> sign_of x) = sign_of x" by (simp add: one_fields)
  show ?thesis
  proof (cases "expo_of x = 2047")
    case True
    then have i: "is_inf x" using assms by (simp add: is_nan_def is_inf_def)
    have "(0::int) < 2 ^ 2098" by (rule zero_less_power) simp
    also have "2 ^ 2098 \<le> mag x" using True by (intro mag_inf_ge)
    finally have "mag x \<noteq> 0" by simp
    then show ?thesis
      unfolding dmul_def s using assms n1 m1 i by (simp add: dinf_self)
  next
    case False
    then have f: "expo_of x < 2047" using expo_of_bound[of x] by simp
    then have ni: "\<not> is_inf x" by (simp add: is_inf_def)
    have "round_double (sign_of x) (mag x * 2 ^ 1074) (2 ^ 1074) = mk_double (sign_of x) (expo_of x) (frac_of x)"
      by (rule round_double_exact[OF f]) simp
    then have "round_double (sign_of x) (mag (dec_lit 1 0) * mag x) (2 ^ 1074) = x"
      unfolding mag_one mk_double_of_fields by (simp only: mult.commute)
    then show ?thesis
      unfolding dmul_def s using assms n1 ni by (simp del: power_numeral)
  qed
qed

lemma dadd_nan: "is_nan x \<or> is_nan y \<Longrightarrow> dadd x y = dnan"
  by (simp add: dadd_def)

lemma dmul_nan: "is_nan x \<or> is_nan y \<Longrightarrow> dmul x y = dnan"
  by (simp add: dmul_def)

lemma dadd_dmul_one: "dadd y (dmul (dec_lit 1 0) x) = dadd y x"
proof (cases "is_nan x")
  case True
  then show ?thesis by (simp add: dmul_nan dadd_nan is_nan_dnan)
next
  case False
  then show ?thesis by (simp add: dmul_one_left)
qed

section \<open>vecadd and vecaadd\<close>

lemma vecadd_loop_stop: "\<not> i < n \<Longrightarrow> vecadd_loop m y x n i = Some m"
  by (subst vecadd_loop.simps) simp

lemma vecadd_loop_step:
  "i < n \<Longrightarrow> vecadd_loop m y x n i =
     (case (m (y + nat i), m (x + nat i)) of
        (Some yi, Some xi) \<Rightarrow> vecadd_loop (m(y + nat i \<mapsto> dadd yi xi)) y x n (i + 1)
      | _ \<Rightarrow> None)"
  by (subst vecadd_loop.simps) simp

lemma vecaadd_loop_stop: "\<not> i < n \<Longrightarrow> vecaadd_loop m y a x n i = Some m"
  by (subst vecaadd_loop.simps) simp

lemma vecaadd_loop_step:
  "i < n \<Longrightarrow> vecaadd_loop m y a x n i =
     (case (m (y + nat i), m (x + nat i)) of
        (Some yi, Some xi) \<Rightarrow> vecaadd_loop (m(y + nat i \<mapsto> dadd yi (dmul a xi))) y a x n (i + 1)
      | _ \<Rightarrow> None)"
  by (subst vecaadd_loop.simps) simp

lemma vecaadd_loop_one: "vecaadd_loop m y (dec_lit 1 0) x n i = vecadd_loop m y x n i"
proof (induction m y x n i rule: vecadd_loop.induct)
  case (1 m y x n i)
  show ?case
  proof (cases "i < n")
    case False
    then show ?thesis by (simp add: vecadd_loop_stop vecaadd_loop_stop)
  next
    case True
    show ?thesis
    proof (cases "m (y + nat i)")
      case None
      then show ?thesis
        by (simp add: vecadd_loop_step[OF True] vecaadd_loop_step[OF True])
    next
      case yi: (Some yi)
      show ?thesis
      proof (cases "m (x + nat i)")
        case None
        then show ?thesis using yi
          by (simp add: vecadd_loop_step[OF True] vecaadd_loop_step[OF True])
      next
        case xi: (Some xi)
        have "vecaadd_loop (m(y + nat i \<mapsto> dadd yi xi)) y (dec_lit 1 0) x n (i + 1)
            = vecadd_loop (m(y + nat i \<mapsto> dadd yi xi)) y x n (i + 1)"
          by (rule "1.IH"[OF True refl yi xi])
        then show ?thesis using yi xi
          by (simp add: vecadd_loop_step[OF True] vecaadd_loop_step[OF True] dadd_dmul_one)
      qed
    qed
  qed
qed

lemma vecaadd_loop_result:
  assumes "\<forall>k<nat n. m (x + k) = Some (xs ! k)"
    and "\<forall>k. nat i \<le> k \<and> k < nat n \<longrightarrow> m (y + k) = Some (ys ! k)"
    and "x + nat n \<le> y \<or> y + nat n \<le> x"
    and "0 \<le> i"
  shows "\<exists>m'. vecaadd_loop m y a x n i = Some m'
      \<and> (\<forall>k. nat i \<le> k \<and> k < nat n \<longrightarrow> m' (y + k) = Some (dadd (ys ! k) (dmul a (xs ! k))))
      \<and> (\<forall>p. (\<forall>k. nat i \<le> k \<and> k < nat n \<longrightarrow> p \<noteq> y + k) \<longrightarrow> m' p = m p)"
  using assms
proof (induction m y a x n i rule: vecaadd_loop.induct)
  case (1 m y a x n i)
  show ?case
  proof (cases "i < n")
    case False
    then have e: "vecaadd_loop m y a x n i = Some m" by (rule vecaadd_loop_stop)
    have nk: "\<not> (nat i \<le> k \<and> k < nat n)" for k using False "1.prems"(4) by linarith
    have "nat n \<le> nat i" using False "1.prems"(4) by simp
    then show ?thesis unfolding e by auto
  next
    case True
    then have lt: "nat i < nat n" using "1.prems"(4) by simp
    have ni: "nat (i + 1) = Suc (nat i)" using "1.prems"(4) by (simp add: nat_add_distrib)
    have yi: "m (y + nat i) = Some (ys ! nat i)" using "1.prems"(2) lt by simp
    have xi: "m (x + nat i) = Some (xs ! nat i)" using "1.prems"(1) lt by simp
    define v where "v = dadd (ys ! nat i) (dmul a (xs ! nat i))"
    define m1 where "m1 = m(y + nat i \<mapsto> v)"
    have step: "vecaadd_loop m y a x n i = vecaadd_loop m1 y a x n (i + 1)"
      using yi xi by (simp add: vecaadd_loop_step[OF True] m1_def v_def)
    have p1: "\<forall>k<nat n. m1 (x + k) = Some (xs ! k)"
    proof (intro allI impI)
      fix k assume k: "k < nat n"
      then have "x + k \<noteq> y + nat i" using "1.prems"(3) lt by linarith
      then show "m1 (x + k) = Some (xs ! k)" using "1.prems"(1) k by (simp add: m1_def)
    qed
    have p2: "\<forall>k. nat (i + 1) \<le> k \<and> k < nat n \<longrightarrow> m1 (y + k) = Some (ys ! k)"
    proof (intro allI impI)
      fix k assume k: "nat (i + 1) \<le> k \<and> k < nat n"
      then have "k \<noteq> nat i" "nat i \<le> k \<and> k < nat n" using ni by simp_all
      then show "m1 (y + k) = Some (ys ! k)" using "1.prems"(2) by (simp add: m1_def)
    qed
    have p4: "0 \<le> i + 1" using "1.prems"(4) by simp
    have "\<exists>m'. vecaadd_loop m1 y a x n (i + 1) = Some m'
      \<and> (\<forall>k. nat (i + 1) \<le> k \<and> k < nat n \<longrightarrow> m' (y + k) = Some (dadd (ys ! k) (dmul a (xs ! k))))
      \<and> (\<forall>p. (\<forall>k. nat (i + 1) \<le> k \<and> k < nat n \<longrightarrow> p \<noteq> y + k) \<longrightarrow> m' p = m1 p)"
      unfolding m1_def v_def
      by (rule "1.IH"[OF True refl yi xi p1[unfolded m1_def v_def] p2[unfolded m1_def v_def] "1.prems"(3) p4])
    then obtain m' where r: "vecaadd_loop m1 y a x n (i + 1) = Some m'"
      and a1: "\<forall>k. nat (i + 1) \<le> k \<and> k < nat n \<longrightarrow> m' (y + k) = Some (dadd (ys ! k) (dmul a (xs ! k)))"
      and f1: "\<forall>p. (\<forall>k. nat (i + 1) \<le> k \<and> k < nat n \<longrightarrow> p \<noteq> y + k) \<longrightarrow> m' p = m1 p"
      by (elim exE conjE)
    have "\<forall>k. nat (i + 1) \<le> k \<and> k < nat n \<longrightarrow> y + nat i \<noteq> y + k" using ni by simp
    then have "m' (y + nat i) = m1 (y + nat i)" by (rule f1[THEN spec, THEN mp])
    then have same: "m' (y + nat i) = Some v" by (simp add: m1_def)
    have A: "\<forall>k. nat i \<le> k \<and> k < nat n \<longrightarrow> m' (y + k) = Some (dadd (ys ! k) (dmul a (xs ! k)))"
    proof (intro allI impI)
      fix k assume k: "nat i \<le> k \<and> k < nat n"
      show "m' (y + k) = Some (dadd (ys ! k) (dmul a (xs ! k)))"
      proof (cases "k = nat i")
        case True
        then show ?thesis using same by (simp add: v_def)
      next
        case False
        then have "nat (i + 1) \<le> k \<and> k < nat n" using k ni by simp
        then show ?thesis by (rule a1[THEN spec, THEN mp])
      qed
    qed
    have B: "\<forall>p. (\<forall>k. nat i \<le> k \<and> k < nat n \<longrightarrow> p \<noteq> y + k) \<longrightarrow> m' p = m p"
    proof (intro allI impI)
      fix p assume p: "\<forall>k. nat i \<le> k \<and> k < nat n \<longrightarrow> p \<noteq> y + k"
      then have ne: "p \<noteq> y + nat i" using lt by simp
      have "\<forall>k. nat (i + 1) \<le> k \<and> k < nat n \<longrightarrow> p \<noteq> y + k" using p ni by simp
      then have "m' p = m1 p" by (rule f1[THEN spec, THEN mp])
      then show "m' p = m p" using ne by (simp add: m1_def)
    qed
    show ?thesis unfolding step using r A B by (intro exI[of _ m'] conjI)
  qed
qed

lemma round_double_zero: "0 < D \<Longrightarrow> round_double s 0 D = dzero s"
proof -
  assume D: "0 < D"
  have "round_double s (mag 0 * D) D = mk_double s (expo_of 0) (frac_of 0)"
    by (rule round_double_exact) (simp_all add: fields_zero D)
  then show ?thesis by (simp add: fields_zero dzero_def)
qed

lemma dmul_zero_left:
  assumes "expo_of x < 2047"
  shows "dmul (dec_lit 0 0) x = dzero (sign_of x)"
proof -
  have "\<not> is_nan x" "\<not> is_inf x" using assms by (simp_all add: is_nan_def is_inf_def)
  moreover have "\<not> is_nan (dec_lit 0 0)" "\<not> is_inf (dec_lit 0 0)"
    by (simp_all add: dec_lit_zero is_nan_def is_inf_def fields_zero)
  moreover have "round_double (sign_of x) 0 (2 ^ 1074) = dzero (sign_of x)"
    by (rule round_double_zero) simp
  ultimately show ?thesis
    by (simp del: power_numeral add: dmul_def dec_lit_zero fields_zero)
qed

lemma sval_zero_iff: "sval x = 0 \<longleftrightarrow> mag x = 0"
  by (simp add: sval_def)

lemma dadd_zero_right:
  assumes "\<not> is_nan y"
  shows "dadd y (dzero s) = (if y = dzero True \<and> \<not> s then dzero False else y)"
proof (cases "expo_of y = 2047")
  case True
  then have i: "is_inf y" using assms by (simp add: is_nan_def is_inf_def)
  have "\<not> is_nan (dzero s)" "\<not> is_inf (dzero s)" by (simp_all add: is_nan_def is_inf_def dzero_fields)
  moreover have "y \<noteq> dzero True" using True dzero_fields(1)[of True] by auto
  ultimately show ?thesis using assms i by (simp add: dadd_def)
next
  case False
  then have f: "expo_of y < 2047" using expo_of_bound[of y] by simp
  then have ni: "\<not> is_inf y" by (simp add: is_inf_def)
  have z: "\<not> is_nan (dzero s)" "\<not> is_inf (dzero s)" by (simp_all add: is_nan_def is_inf_def dzero_fields)
  have sz: "sval (dzero s) = 0" by (simp add: sval_def mag_dzero)
  show ?thesis
  proof (cases "mag y = 0")
    case True
    then have y: "y = dzero (sign_of y)" using dzero_self[OF f] by simp
    have "dadd y (dzero s) = dzero (sign_of y \<and> s)"
      using assms ni z True by (simp add: dadd_def sz sval_zero_iff dzero_fields)
    also have "\<dots> = (if y = dzero True \<and> \<not> s then dzero False else y)"
    proof (cases "sign_of y")
      case True
      then have yt: "y = dzero True" using y by simp
      show ?thesis by (cases s) (simp_all add: True yt[symmetric])
    next
      case False
      then have yf: "y = dzero False" using y by simp
      have "y \<noteq> dzero True" using False dzero_fields(3)[of True] by auto
      then show ?thesis by (simp add: False yf[symmetric])
    qed
    finally show ?thesis .
  next
    case False
    have m: "0 < mag y" using False mag_nonneg[of y] by simp
    have ne: "y \<noteq> dzero True" using False mag_dzero[of True] by auto
    have s: "(sval y < 0) = sign_of y" "\<bar>sval y\<bar> = mag y" "sval y \<noteq> 0"
      using m by (simp_all add: sval_def)
    have "round_double (sign_of y) (mag y * 1) 1 = mk_double (sign_of y) (expo_of y) (frac_of y)"
      by (rule round_double_exact[OF f]) simp
    then have "round_double (sign_of y) (mag y) 1 = y" by (simp add: mk_double_of_fields)
    then show ?thesis
      using assms ni z ne by (simp add: dadd_def sz s)
  qed
qed

lemma dadd_dmul_zero:
  assumes "expo_of x < 2047"
  shows "dadd y (dmul (dec_lit 0 0) x) =
     (if is_nan y then dnan else if y = dzero True \<and> \<not> sign_of x then dzero False else y)"
  by (simp add: dmul_zero_left[OF assms] dadd_nan dadd_zero_right)

lemma deq_refl: "\<not> is_nan y \<Longrightarrow> deq y y"
  by (simp add: deq_def)

lemma deq_zeros: "deq (dzero False) (dzero True)"
  by (simp add: deq_def is_nan_def dzero_fields sval_def mag_dzero)

section \<open>The commutativity of vecdot\<close>

lemma vecdot_single:
  assumes "m x = Some a" and "m y = Some b"
  shows "vecdot m x y 1 = Some (dadd 0 (dmul a b), m)"
proof -
  have "vecdot_loop m x y 1 0 0 = vecdot_loop m x y 1 (0 + 1) (dadd 0 (dmul a b))"
    using assms by (subst vecdot_loop.simps) simp
  also have "\<dots> = Some (dadd 0 (dmul a b), m)"
    by (subst vecdot_loop.simps) simp
  finally show ?thesis by (simp add: vecdot_def double_of_int_zero)
qed

lemma two_fields:
  "expo_of (dec_lit 20 (- 1)) = 1024" "frac_of (dec_lit 20 (- 1)) = 0"
  "sign_of (dec_lit 20 (- 1)) = False"
  by (simp_all add: dec_lit_two expo_of_def frac_of_def sign_of_def)

lemma dadd_zero_left:
  assumes "expo_of y < 2047" and "mag y \<noteq> 0"
  shows "dadd 0 y = y"
proof -
  have n: "\<not> is_nan y" "\<not> is_inf y" using assms by (simp_all add: is_nan_def is_inf_def)
  have z: "\<not> is_nan 0" "\<not> is_inf 0" by (simp_all add: is_nan_def is_inf_def fields_zero)
  have m: "0 < mag y" using assms mag_nonneg[of y] by simp
  have s: "(sval y < 0) = sign_of y" "\<bar>sval y\<bar> = mag y" "sval y \<noteq> 0"
    using m by (simp_all add: sval_def)
  have "round_double (sign_of y) (mag y * 1) 1 = mk_double (sign_of y) (expo_of y) (frac_of y)"
    by (rule round_double_exact[OF assms(1)]) simp
  then have "round_double (sign_of y) (mag y) 1 = y" by (simp add: mk_double_of_fields)
  then show ?thesis using n z by (simp add: dadd_def fields_zero s)
qed

lemma vecdot_one_two:
  "dadd 0 (dmul (dec_lit 1 0) (dec_lit 20 (- 1))) = dec_lit 20 (- 1)"
proof -
  have n: "\<not> is_nan (dec_lit 20 (- 1))" by (simp add: is_nan_def two_fields)
  have "mag (dec_lit 20 (- 1)) = 2 ^ 52 * 2 ^ 1023"
    by (rule mag_eqI) (simp_all add: two_fields)
  then have m: "mag (dec_lit 20 (- 1)) \<noteq> 0" by simp
  show ?thesis
    unfolding dmul_one_left[OF n] by (rule dadd_zero_left) (simp_all add: two_fields m)
qed

lemma vecdot_inf_zero:
  "dadd 0 (dmul (dinf False) (dec_lit 0 0)) = dnan"
  "dadd 0 (dmul (dec_lit 0 0) (dinf False)) = dnan"
proof -
  have i: "is_inf (dinf False)" "\<not> is_nan (dinf False)"
    by (simp_all add: is_inf_def is_nan_def dinf_fields)
  have z: "\<not> is_nan (dec_lit 0 0)" "mag (dec_lit 0 0) = 0"
    by (simp_all add: dec_lit_zero is_nan_def fields_zero)
  have "dmul (dinf False) (dec_lit 0 0) = dnan" using i z by (simp add: dmul_def)
  then show "dadd 0 (dmul (dinf False) (dec_lit 0 0)) = dnan"
    by (simp add: dadd_nan is_nan_dnan)
  have "dmul (dec_lit 0 0) (dinf False) = dnan" using i z by (simp add: dmul_def)
  then show "dadd 0 (dmul (dec_lit 0 0) (dinf False)) = dnan"
    by (simp add: dadd_nan is_nan_dnan)
qed

text \<open>C6, amended: for all vectors \<open>x\<close> and \<open>y\<close> (pointers into any memory, overlapping
  or not) and every length \<open>n\<close>, \<open>vecdot(x, y, n)\<close> and \<open>vecdot(y, x, n)\<close> are either
  both undefined, or both return and leave the memory as it was; then, when the first
  sum is no NaN, the second is the same double and \<open>==\<close> holds between them, and when the
  first sum is a NaN, the second is a NaN too and \<open>==\<close> between them is false.\<close>

theorem vecdot_commutative:
  "(vecdot m x y n = None \<and> vecdot m y x n = None)
   \<or> (\<exists>s t. vecdot m x y n = Some (s, m) \<and> vecdot m y x n = Some (t, m)
        \<and> (if is_nan s then is_nan t \<and> \<not> deq s t else t = s \<and> deq s t))"
proof (cases "vecdot m x y n")
  case None
  moreover have "vecdot m y x n = vecdot m x y n"
    unfolding vecdot_def by (rule vecdot_loop_commute)
  ultimately show ?thesis by simp
next
  case (Some r)
  obtain s m' where r: "r = (s, m')" by (cases r)
  have "m' = m" using Some unfolding r vecdot_def by (rule vecdot_loop_frame)
  then have a: "vecdot m x y n = Some (s, m)" using Some r by simp
  have "vecdot m y x n = vecdot m x y n"
    unfolding vecdot_def by (rule vecdot_loop_commute)
  then have b: "vecdot m y x n = Some (s, m)" using a by simp
  have "if is_nan s then is_nan s \<and> \<not> deq s s else s = s \<and> deq s s"
    by (simp add: deq_def)
  then show ?thesis using a b by blast
qed

theorem vecdot_commutative_witness:
  "vecdot [0 \<mapsto> dec_lit 1 0, 1 \<mapsto> dec_lit 20 (- 1)] 0 1 1
     = Some (dec_lit 20 (- 1), [0 \<mapsto> dec_lit 1 0, 1 \<mapsto> dec_lit 20 (- 1)])
   \<and> vecdot [0 \<mapsto> dec_lit 1 0, 1 \<mapsto> dec_lit 20 (- 1)] 1 0 1
     = Some (dec_lit 20 (- 1), [0 \<mapsto> dec_lit 1 0, 1 \<mapsto> dec_lit 20 (- 1)])
   \<and> deq (dec_lit 20 (- 1)) (dec_lit 20 (- 1))
   \<and> is_nan (fst (the (vecdot [0 \<mapsto> dinf False, 1 \<mapsto> dec_lit 0 0] 0 1 1)))
   \<and> is_nan (fst (the (vecdot [0 \<mapsto> dinf False, 1 \<mapsto> dec_lit 0 0] 1 0 1)))"
proof -
  let ?M = "[(0::nat) \<mapsto> dec_lit 1 0, 1 \<mapsto> dec_lit 20 (- 1)]"
  let ?N = "[(0::nat) \<mapsto> dinf False, 1 \<mapsto> dec_lit 0 0]"
  have n: "\<not> is_nan (dec_lit 20 (- 1))" by (simp add: is_nan_def two_fields)
  have "vecdot ?M 0 1 1 = Some (dadd 0 (dmul (dec_lit 1 0) (dec_lit 20 (- 1))), ?M)"
    by (rule vecdot_single) simp_all
  then have a: "vecdot ?M 0 1 1 = Some (dec_lit 20 (- 1), ?M)"
    by (simp only: vecdot_one_two)
  from vecdot_commutative[of ?M 0 1 1] a n
  have b: "vecdot ?M 1 0 1 = Some (dec_lit 20 (- 1), ?M) \<and> deq (dec_lit 20 (- 1)) (dec_lit 20 (- 1))"
    by auto
  have "vecdot ?N 0 1 1 = Some (dadd 0 (dmul (dinf False) (dec_lit 0 0)), ?N)"
    by (rule vecdot_single) simp_all
  then have c: "vecdot ?N 0 1 1 = Some (dnan, ?N)"
    by (simp only: vecdot_inf_zero)
  from vecdot_commutative[of ?N 0 1 1] c is_nan_dnan
  have d: "is_nan (fst (the (vecdot ?N 1 0 1)))" by auto
  show ?thesis using a b c d is_nan_dnan by simp
qed

theorem vecdot_nan_counterexample:
  "vecdot (map_of [(0, dinf False), (1, dec_lit 0 0)]) 0 1 1
     = Some (dnan, map_of [(0, dinf False), (1, dec_lit 0 0)])
   \<and> vecdot (map_of [(0, dinf False), (1, dec_lit 0 0)]) 1 0 1
     = Some (dnan, map_of [(0, dinf False), (1, dec_lit 0 0)])
   \<and> is_nan dnan \<and> \<not> deq dnan dnan"
proof -
  let ?N = "map_of [(0::nat, dinf False), (1, dec_lit 0 0)]"
  have "vecdot ?N 0 1 1 = Some (dadd 0 (dmul (dinf False) (dec_lit 0 0)), ?N)"
    by (rule vecdot_single) simp_all
  then have c: "vecdot ?N 0 1 1 = Some (dnan, ?N)"
    by (simp only: vecdot_inf_zero)
  have "vecdot ?N 1 0 1 = Some (dadd 0 (dmul (dec_lit 0 0) (dinf False)), ?N)"
    by (rule vecdot_single) simp_all
  then have d: "vecdot ?N 1 0 1 = Some (dnan, ?N)"
    by (simp only: vecdot_inf_zero)
  show ?thesis using c d is_nan_dnan by (simp add: deq_def)
qed

section \<open>Claims about veczero, vecexp and vecaadd\<close>

text \<open>C8: for \<open>0 \<le> n\<close> (an \<open>int\<close>, so below \<open>2^31\<close>) and a buffer \<open>x\<close> of \<open>n\<close> elements,
  \<open>veczero(x, n)\<close> returns and leaves every one of the first \<open>n\<close> elements equal to
  \<open>0.0\<close> (the all-zero bit pattern); the cells outside the buffer keep their values.\<close>

theorem veczero_zeroes:
  assumes "vec_at m x xs" and "length xs = nat n" and "0 \<le> n" and "n < 2 ^ 31"
  shows "\<exists>m'. veczero m x n = Some m'
      \<and> (\<forall>i<nat n. m' (x + i) = Some (dec_lit 0 0) \<and> deq (dec_lit 0 0) (dec_lit 0 0))
      \<and> (\<forall>a. a < x \<or> x + nat n \<le> a \<longrightarrow> m' a = m a)"
proof -
  have "n mod 2 ^ 64 = n" using assms(3,4) by simp
  moreover have "(8 * n) mod 2 ^ 64 = 8 * n" using assms(3,4) by simp
  ultimately have c: "nat ((8 * (n mod 2 ^ 64)) mod 2 ^ 64) div 8 = nat n" by simp
  have "\<forall>j<nat n. m (x + j) \<noteq> None" using assms(1,2) by (simp add: vec_at_def)
  from memset_cells_result[OF this, of 0] obtain m' where
    r: "memset_cells m x 0 (nat n) = Some m'"
    and a: "\<forall>j<nat n. m' (x + j) = Some (double_of_bytes (replicate 8 0))"
    and f: "\<forall>a. a < x \<or> x + nat n \<le> a \<longrightarrow> m' a = m a" by (elim exE conjE)
  have z: "double_of_bytes (replicate 8 0) = dec_lit 0 0"
    by (simp add: double_of_bytes_const0 dec_lit_zero)
  have "veczero m x n = Some m'" unfolding veczero_def c by (rule r)
  moreover have "\<forall>i<nat n. m' (x + i) = Some (dec_lit 0 0) \<and> deq (dec_lit 0 0) (dec_lit 0 0)"
    using a z deq_pos_zero by (simp add: dec_lit_zero)
  ultimately show ?thesis using f by (intro exI[of _ m'] conjI)
qed

theorem veczero_zeroes_witness:
  "\<exists>m'. veczero [0 \<mapsto> dec_lit 1 0] 0 1 = Some m' \<and> m' 0 = Some (dec_lit 0 0)"
proof -
  have v: "vec_at [0 \<mapsto> dec_lit 1 0] 0 [dec_lit 1 0]" by (simp add: vec_at_def)
  from veczero_zeroes[OF v, of 1] obtain m' where
    "veczero [0 \<mapsto> dec_lit 1 0] 0 1 = Some m'"
    "\<forall>i<nat 1. m' (0 + i) = Some (dec_lit 0 0) \<and> deq (dec_lit 0 0) (dec_lit 0 0)"
    by auto
  then show ?thesis by auto
qed

text \<open>C9: when \<open>x[i]\<close> is negative zero, \<open>x[i] == 0.\<close> holds, so a call of \<open>vecexp\<close>
  that returns has set \<open>x[i]\<close> to exactly \<open>1.0\<close>, and negative zero is not among the
  arguments it passed to \<open>fastexp\<close>: no argument of \<open>fastexp\<close> compares equal to zero.\<close>

theorem vecexp_negative_zero:
  assumes "vec_at m x xs" and "length xs = nat n" and "0 \<le> n"
    and "i < length xs" and "xs ! i = dzero True"
    and "vecexp m x n = Some m'" and "vecexp_calls m x n = Some calls"
  shows "deq (dzero True) (dec_lit 0 0) \<and> m' (x + i) = Some (dec_lit 1 0)
      \<and> dzero True \<notin> set calls \<and> (\<forall>c\<in>set calls. \<not> deq c (dec_lit 0 0))"
proof -
  from assms(6,7) have r: "vecexp_loop m x n 0 [] = Some (m', calls)"
    by (auto simp: vecexp_def vecexp_calls_def)
  note R = vecexp_result[OF assms(1,2) r]
  have "m' (x + i) = (if deq (xs ! i) (dec_lit 0 0) then Some (dec_lit 1 0) else fastexp (xs ! i))"
    using R(1) assms(4) by simp
  then have a: "m' (x + i) = Some (dec_lit 1 0)" by (simp add: assms(5) deq_neg_zero)
  have c: "\<forall>c\<in>set calls. \<not> deq c (dec_lit 0 0)" unfolding R(3) by simp
  then have "dzero True \<notin> set calls" using deq_neg_zero by blast
  then show ?thesis using a c deq_neg_zero by simp
qed

theorem vecexp_negative_zero_witness:
  "vecexp [0 \<mapsto> dzero True] 0 1 = Some [0 \<mapsto> dec_lit 1 0]
   \<and> vecexp_calls [0 \<mapsto> dzero True] 0 1 = Some []
   \<and> deq (dzero True) (dec_lit 0 0) \<and> [0::nat \<mapsto> dec_lit 1 0] (0 + 0) = Some (dec_lit 1 0)
   \<and> dzero True \<notin> set []"
proof -
  let ?M = "[0 \<mapsto> dzero True]"
  have m0: "?M (0 + nat 0) = Some (dzero True)" by simp
  have "vecexp_loop ?M 0 1 0 [] = vecexp_loop (?M(0 + nat 0 \<mapsto> dec_lit 1 0)) 0 1 (0 + 1) []"
    by (rule vecexp_loop_zero[where m="?M" and x=0 and i=0, OF _ m0 deq_neg_zero]) simp
  also have "\<dots> = Some (?M(0 + nat 0 \<mapsto> dec_lit 1 0), [])"
    by (rule vecexp_loop_stop) simp
  finally have r: "vecexp_loop ?M 0 1 0 [] = Some ([0 \<mapsto> dec_lit 1 0], [])" by simp
  have e: "vecexp ?M 0 1 = Some [0 \<mapsto> dec_lit 1 0]" by (simp add: vecexp_def r)
  have c: "vecexp_calls ?M 0 1 = Some []" by (simp add: vecexp_calls_def r)
  have v: "vec_at ?M 0 [dzero True]" by (simp add: vec_at_def)
  have "deq (dzero True) (dec_lit 0 0) \<and> [0::nat \<mapsto> dec_lit 1 0] (0 + 0) = Some (dec_lit 1 0)
      \<and> dzero True \<notin> set [] \<and> (\<forall>c\<in>set []. \<not> deq c (dec_lit 0 0))"
    using vecexp_negative_zero[where m="?M" and x=0 and xs="[dzero True]" and n=1 and i=0
        and m'="[0 \<mapsto> dec_lit 1 0]" and calls="[]"] v e c by simp
  then show ?thesis using e c by simp
qed

text \<open>C7, amended: \<open>vecaadd(y, 1, x, n)\<close> always has the effect of \<open>vecadd(y, x, n)\<close>.
  \<open>vecaadd(y, 0, x, n)\<close>, for \<open>n \<ge> 0\<close>, disjoint buffers and finite \<open>x[0..n)\<close>, returns and
  leaves every \<open>y[i]\<close> bit-identical, but for two cases: a negative zero becomes \<open>+0.0\<close>
  when \<open>x[i]\<close> has a positive sign, and a NaN becomes the NaN of the model; so every
  \<open>y[i]\<close> that is no NaN still compares equal to its old value. Nothing is promised
  where \<open>x[i]\<close> is an infinity or a NaN: there \<open>0 * x[i]\<close> is a NaN.\<close>

theorem vecaadd_zero_and_one:
  "(vec_at m x xs \<and> vec_at m y ys \<and> length xs = nat n \<and> length ys = nat n \<and> 0 \<le> n
      \<and> (x + nat n \<le> y \<or> y + nat n \<le> x) \<and> (\<forall>v\<in>set xs. is_finite v)
    \<longrightarrow> (\<exists>m'. vecaadd m y (dec_lit 0 0) x n = Some m'
          \<and> (\<forall>i<nat n. m' (y + i) = Some
                (if is_nan (ys ! i) then dnan
                 else if ys ! i = dzero True \<and> \<not> sign_of (xs ! i) then dzero False
                 else ys ! i))
          \<and> (\<forall>i<nat n. \<not> is_nan (ys ! i) \<longrightarrow> (\<exists>v. m' (y + i) = Some v \<and> deq v (ys ! i)))
          \<and> (\<forall>p. p < y \<or> y + nat n \<le> p \<longrightarrow> m' p = m p)))
   \<and> vecaadd m y (dec_lit 1 0) x n = vecadd m y x n"
proof (intro conjI impI)
  show "vecaadd m y (dec_lit 1 0) x n = vecadd m y x n"
    unfolding vecaadd_def vecadd_def by (rule vecaadd_loop_one)
next
  assume H: "vec_at m x xs \<and> vec_at m y ys \<and> length xs = nat n \<and> length ys = nat n \<and> 0 \<le> n
      \<and> (x + nat n \<le> y \<or> y + nat n \<le> x) \<and> (\<forall>v\<in>set xs. is_finite v)"
  then have vx: "\<forall>k<nat n. m (x + k) = Some (xs ! k)"
    and vy: "\<forall>k. nat 0 \<le> k \<and> k < nat n \<longrightarrow> m (y + k) = Some (ys ! k)"
    and dj: "x + nat n \<le> y \<or> y + nat n \<le> x"
    and fin: "\<forall>k<nat n. expo_of (xs ! k) < 2047"
    by (simp_all add: vec_at_def is_finite_def)
  from vecaadd_loop_result[OF vx vy dj, of "dec_lit 0 0"] obtain m' where
    r: "vecaadd_loop m y (dec_lit 0 0) x n 0 = Some m'"
    and a: "\<forall>k. nat 0 \<le> k \<and> k < nat n \<longrightarrow> m' (y + k) = Some (dadd (ys ! k) (dmul (dec_lit 0 0) (xs ! k)))"
    and f: "\<forall>p. (\<forall>k. nat 0 \<le> k \<and> k < nat n \<longrightarrow> p \<noteq> y + k) \<longrightarrow> m' p = m p"
    by auto
  have A: "\<forall>i<nat n. m' (y + i) = Some
                (if is_nan (ys ! i) then dnan
                 else if ys ! i = dzero True \<and> \<not> sign_of (xs ! i) then dzero False
                 else ys ! i)"
    using a fin by (simp add: dadd_dmul_zero)
  have B: "\<forall>i<nat n. \<not> is_nan (ys ! i) \<longrightarrow> (\<exists>v. m' (y + i) = Some v \<and> deq v (ys ! i))"
  proof (intro allI impI)
    fix i assume i: "i < nat n" and nn: "\<not> is_nan (ys ! i)"
    show "\<exists>v. m' (y + i) = Some v \<and> deq v (ys ! i)"
    proof (cases "ys ! i = dzero True \<and> \<not> sign_of (xs ! i)")
      case True
      then have "m' (y + i) = Some (dzero False)" using A i nn by simp
      then show ?thesis using True deq_zeros by simp
    next
      case False
      then have "m' (y + i) = Some (ys ! i)" using A i nn by auto
      then show ?thesis using deq_refl[OF nn] by simp
    qed
  qed
  have C: "\<forall>p. p < y \<or> y + nat n \<le> p \<longrightarrow> m' p = m p"
  proof (intro allI impI)
    fix p assume "p < y \<or> y + nat n \<le> p"
    then have "\<forall>k. nat 0 \<le> k \<and> k < nat n \<longrightarrow> p \<noteq> y + k" by auto
    then show "m' p = m p" by (rule f[THEN spec, THEN mp])
  qed
  show "\<exists>m'. vecaadd m y (dec_lit 0 0) x n = Some m'
          \<and> (\<forall>i<nat n. m' (y + i) = Some
                (if is_nan (ys ! i) then dnan
                 else if ys ! i = dzero True \<and> \<not> sign_of (xs ! i) then dzero False
                 else ys ! i))
          \<and> (\<forall>i<nat n. \<not> is_nan (ys ! i) \<longrightarrow> (\<exists>v. m' (y + i) = Some v \<and> deq v (ys ! i)))
          \<and> (\<forall>p. p < y \<or> y + nat n \<le> p \<longrightarrow> m' p = m p)"
    unfolding vecaadd_def using r A B C by (intro exI[of _ m'] conjI)
qed

theorem vecaadd_zero_and_one_witness:
  "(\<exists>m'. vecaadd [0 \<mapsto> dec_lit 1 0, 1 \<mapsto> dec_lit 0 0] 0 (dec_lit 0 0) 1 1 = Some m'
       \<and> m' 0 = Some (dec_lit 1 0))
   \<and> vecaadd [0 \<mapsto> dec_lit 1 0, 1 \<mapsto> dec_lit 0 0] 0 (dec_lit 1 0) 1 1
       = vecadd [0 \<mapsto> dec_lit 1 0, 1 \<mapsto> dec_lit 0 0] 0 1 1"
proof -
  let ?M = "[0 \<mapsto> dec_lit 1 0, 1 \<mapsto> dec_lit 0 0]"
  have h: "vec_at ?M 1 [dec_lit 0 0] \<and> vec_at ?M 0 [dec_lit 1 0]
      \<and> length [dec_lit 0 0] = nat 1 \<and> length [dec_lit 1 0] = nat 1 \<and> (0::int) \<le> 1
      \<and> ((1::nat) + nat 1 \<le> 0 \<or> (0::nat) + nat 1 \<le> 1) \<and> (\<forall>v\<in>set [dec_lit 0 0]. is_finite v)"
    by (simp add: vec_at_def is_finite_def dec_lit_zero fields_zero)
  have n1: "\<not> is_nan (dec_lit 1 0)" by (simp add: is_nan_def one_fields)
  have n2: "dec_lit 1 0 \<noteq> dzero True" using one_fields(1) dzero_fields(1)[of True] by auto
  note T = vecaadd_zero_and_one[of ?M 1 "[dec_lit 0 0]" 0 "[dec_lit 1 0]" 1]
  from T[THEN conjunct1, THEN mp, OF h] obtain m' where
    "vecaadd ?M 0 (dec_lit 0 0) 1 1 = Some m'"
    "\<forall>i<nat 1. m' (0 + i) = Some
        (if is_nan ([dec_lit 1 0] ! i) then dnan
         else if [dec_lit 1 0] ! i = dzero True \<and> \<not> sign_of ([dec_lit 0 0] ! i) then dzero False
         else [dec_lit 1 0] ! i)"
    by (elim exE conjE)
  then have "vecaadd ?M 0 (dec_lit 0 0) 1 1 = Some m' \<and> m' 0 = Some (dec_lit 1 0)"
    using n1 n2 by simp
  then show ?thesis using T[THEN conjunct2] by blast
qed

theorem vecaadd_zero_counterexample:
  "vecaadd (map_of [(0, dec_lit 1 0), (1, dinf False)]) 0 (dec_lit 0 0) 1 1
     = Some ((map_of [(0, dec_lit 1 0), (1, dinf False)])(0 \<mapsto> dnan))
   \<and> ((map_of [(0, dec_lit 1 0), (1, dinf False)])(0 \<mapsto> dnan)) 0
       \<noteq> (map_of [(0, dec_lit 1 0), (1, dinf False)]) 0
   \<and> is_nan dnan \<and> \<not> is_nan (dec_lit 1 0)"
proof -
  let ?M = "map_of [(0::nat, dec_lit 1 0), (1, dinf False)]"
  have n1: "\<not> is_nan (dec_lit 1 0)" by (simp add: is_nan_def one_fields)
  have ne: "dnan \<noteq> dec_lit 1 0" using n1 is_nan_dnan by auto
  have i: "is_inf (dinf False)" "\<not> is_nan (dinf False)" by (simp_all add: is_inf_def is_nan_def dinf_fields)
  have z: "\<not> is_nan (dec_lit 0 0)" "mag (dec_lit 0 0) = 0"
    by (simp_all add: dec_lit_zero is_nan_def fields_zero)
  have p: "dmul (dec_lit 0 0) (dinf False) = dnan" using i z by (simp add: dmul_def)
  have s: "dadd (dec_lit 1 0) dnan = dnan" by (simp add: dadd_nan is_nan_dnan)
  have "vecaadd_loop ?M 0 (dec_lit 0 0) 1 1 0 =
      vecaadd_loop (?M(0 + nat 0 \<mapsto> dadd (dec_lit 1 0) (dmul (dec_lit 0 0) (dinf False)))) 0 (dec_lit 0 0) 1 1 (0 + 1)"
    by (subst vecaadd_loop_step) simp_all
  also have "\<dots> = Some (?M(0 + nat 0 \<mapsto> dadd (dec_lit 1 0) (dmul (dec_lit 0 0) (dinf False))))"
    by (rule vecaadd_loop_stop) simp
  finally have "vecaadd ?M 0 (dec_lit 0 0) 1 1 = Some (?M(0 \<mapsto> dnan))"
    by (simp add: vecaadd_def p s)
  then show ?thesis using ne n1 is_nan_dnan by simp
qed

section \<open>fastexp: the clamp and the range reduction\<close>

lemma MAXLOG_fields: "expo_of MAXLOG = 1032" "frac_of MAXLOG = 1727521166638290" "sign_of MAXLOG = False"
  by (simp_all add: MAXLOG_bits expo_of_def frac_of_def sign_of_def)

lemma MINLOG_fields: "expo_of MINLOG = 1032" "frac_of MINLOG = 1727521166638290" "sign_of MINLOG = True"
  by (simp_all add: MINLOG_bits expo_of_def frac_of_def sign_of_def)

lemma LOG2E_fields: "expo_of LOG2E = 1023" "frac_of LOG2E = 1993721221186302" "sign_of LOG2E = False"
  by (simp_all add: LOG2E_bits expo_of_def frac_of_def sign_of_def)

lemma INFINITY_fields: "expo_of INFINITY = 2046" "frac_of INFINITY = 2 ^ 52 - 1" "sign_of INFINITY = False"
  by (simp_all add: INFINITY_bits expo_of_def frac_of_def sign_of_def)

lemma half_fields:
  "expo_of (dec_lit 5 (- 1)) = 1022" "frac_of (dec_lit 5 (- 1)) = 0" "sign_of (dec_lit 5 (- 1)) = False"
  by (simp_all add: dec_lit_half expo_of_def frac_of_def sign_of_def)

lemma mag_MAXLOG: "mag MAXLOG = 6231120794008786 * 2 ^ 1031"
  by (rule mag_eqI) (simp_all add: MAXLOG_fields)

lemma mag_MINLOG: "mag MINLOG = 6231120794008786 * 2 ^ 1031"
  by (rule mag_eqI) (simp_all add: MINLOG_fields)

lemma mag_LOG2E: "mag LOG2E = 6497320848556798 * 2 ^ 1022"
  by (rule mag_eqI) (simp_all add: LOG2E_fields)

lemma mag_half: "mag (dec_lit 5 (- 1)) = 2 ^ 1073"
proof -
  have "mag (dec_lit 5 (- 1)) = 2 ^ 52 * 2 ^ 1021"
    by (rule mag_eqI) (simp_all add: half_fields)
  then show ?thesis by (simp del: power_numeral add: power_add[symmetric])
qed

lemma consts_not_nan: "\<not> is_nan MAXLOG" "\<not> is_nan MINLOG" "\<not> is_nan LOG2E"
  "\<not> is_nan (dec_lit 5 (- 1))" "\<not> is_inf LOG2E" "\<not> is_inf (dec_lit 5 (- 1))"
  by (simp_all add: is_nan_def is_inf_def MAXLOG_fields MINLOG_fields LOG2E_fields half_fields)

lemma sval_MAXLOG: "sval MAXLOG = mag MAXLOG" and sval_MINLOG: "sval MINLOG = - mag MAXLOG"
  by (simp_all add: sval_def MAXLOG_fields MINLOG_fields mag_MAXLOG mag_MINLOG del: power_numeral)

lemma mag_le_abs_sval: "\<bar>sval x\<bar> = mag x"
  using mag_nonneg[of x] by (simp add: sval_def)

lemma not_both_clamps: "dlt x MINLOG \<Longrightarrow> \<not> dlt MAXLOG x"
proof -
  assume "dlt x MINLOG"
  then have "sval x < - mag MAXLOG" by (simp add: dlt_def sval_MINLOG)
  moreover have "0 \<le> mag MAXLOG" by (rule mag_nonneg)
  ultimately have "\<not> sval MAXLOG < sval x" unfolding sval_MAXLOG by linarith
  then show ?thesis by (simp add: dlt_def)
qed

lemma fastexp_above: "dlt MAXLOG x \<Longrightarrow> fastexp x = Some INFINITY"
  by (simp add: fastexp_def)

lemma fastexp_below: "dlt x MINLOG \<Longrightarrow> fastexp x = Some (dec_lit 0 0)"
  using not_both_clamps[of x] by (simp add: fastexp_def)

lemma INFINITY_finite: "is_finite INFINITY" "\<not> is_inf INFINITY" "\<not> is_nan INFINITY"
  "INFINITY \<noteq> dinf False" "INFINITY = mk_double False 2046 (2 ^ 52 - 1)"
proof -
  show "is_finite INFINITY" "\<not> is_inf INFINITY" "\<not> is_nan INFINITY"
    by (simp_all add: is_finite_def is_inf_def is_nan_def INFINITY_fields)
  show "INFINITY \<noteq> dinf False" using INFINITY_fields(1) dinf_fields(1)[of False] by auto
  show "INFINITY = mk_double False 2046 (2 ^ 52 - 1)"
    using mk_double_of_fields[of INFINITY] by (simp add: INFINITY_fields)
qed

lemma in_range_mag:
  assumes "\<not> is_nan x" "\<not> dlt MAXLOG x" "\<not> dlt x MINLOG"
  shows "expo_of x < 2047" and "mag x \<le> mag MAXLOG"
proof -
  have a: "sval x \<le> mag MAXLOG" using assms(1,2) consts_not_nan by (simp add: dlt_def sval_MAXLOG)
  have b: "- mag MAXLOG \<le> sval x" using assms(1,3) consts_not_nan by (simp add: dlt_def sval_MINLOG)
  from a b have "\<bar>sval x\<bar> \<le> mag MAXLOG" by linarith
  then show le: "mag x \<le> mag MAXLOG" by (simp add: mag_le_abs_sval)
  show "expo_of x < 2047"
  proof (rule ccontr)
    assume "\<not> expo_of x < 2047"
    then have "expo_of x = 2047" using expo_of_bound[of x] by simp
    then have "2 ^ 2098 \<le> mag x" by (rule mag_inf_ge)
    moreover have "mag MAXLOG < 2 ^ 2098" by (rule mag_finite_lt) (simp add: MAXLOG_fields)
    ultimately show False using le by linarith
  qed
qed

lemma scale_mult: "(a * 2 ^ i) * (b * 2 ^ j) = (a * b) * (2::int) ^ (i + j)"
  by (simp add: power_add)

lemma scale_assoc: "(a * 2 ^ i) * 2 ^ j = a * (2::int) ^ (i + j)"
  by (simp add: power_add)

lemma mag_mk_normal:
  assumes "2 ^ 52 \<le> k" "k < 2 ^ 53" "e < 2046"
  shows "expo_of (mk_double s (Suc e) (k - 2 ^ 52)) = Suc e"
    and "mag (mk_double s (Suc e) (k - 2 ^ 52)) = k * 2 ^ e"
    and "sign_of (mk_double s (Suc e) (k - 2 ^ 52)) = s"
proof -
  have e: "Suc e < 2048" using assms(3) by simp
  have f: "0 \<le> k - 2 ^ 52" "k - 2 ^ 52 < 2 ^ 52" using assms by simp_all
  show "expo_of (mk_double s (Suc e) (k - 2 ^ 52)) = Suc e"
    and "sign_of (mk_double s (Suc e) (k - 2 ^ 52)) = s"
    by (rule mk_double_fields[OF e f])+
  show "mag (mk_double s (Suc e) (k - 2 ^ 52)) = k * 2 ^ e"
    unfolding mag_mk_double[OF e f] by simp
qed

lemma dmul_LOG2E_bound:
  assumes "\<not> is_nan x" "\<not> dlt MAXLOG x" "\<not> dlt x MINLOG"
  shows "expo_of (dmul LOG2E x) < 2047"
    and "mag (dmul LOG2E x) \<le> 2045 * 2 ^ 1073"
proof -
  have fx: "expo_of x < 2047" and mx: "mag x \<le> mag MAXLOG"
    by (rule in_range_mag[OF assms])+
  have ni: "\<not> is_inf x" using fx by (simp add: is_inf_def)
  define b where "b = mk_double False (Suc 1031) (2045 * 2 ^ 42 - 2 ^ 52)"
  have eb: "expo_of b = Suc 1031" and mb: "mag b = (2045 * 2 ^ 42) * 2 ^ 1031"
    unfolding b_def by (rule mag_mk_normal; simp)+
  have mb': "mag b = 2045 * 2 ^ 1073"
    unfolding mb scale_assoc by simp
  have "mag LOG2E * mag x \<le> mag LOG2E * mag MAXLOG"
    using mx mag_nonneg[of LOG2E] by (rule mult_left_mono)
  also have "\<dots> = (6497320848556798 * 6231120794008786) * 2 ^ (1022 + 1031)"
    unfolding mag_LOG2E mag_MAXLOG by (rule scale_mult)
  also have "\<dots> \<le> (2045 * 2 ^ 94) * 2 ^ (1022 + 1031)"
    by (rule mult_right_mono) simp_all
  also have "\<dots> = 2045 * 2 ^ (94 + (1022 + 1031))" by (rule scale_assoc)
  also have "\<dots> = 2045 * 2 ^ (1073 + 1074)" by simp
  also have "\<dots> = mag b * 2 ^ 1074" unfolding mb' by (rule scale_assoc[symmetric])
  finally have le: "mag LOG2E * mag x \<le> mag b * 2 ^ 1074" .
  have N: "0 \<le> mag LOG2E * mag x" using mag_nonneg[of LOG2E] mag_nonneg[of x] by simp
  have D: "(0::int) < 2 ^ 1074" by simp
  have fb: "expo_of b < 2047" using eb by simp
  have d: "dmul LOG2E x = round_double (sign_of LOG2E \<noteq> sign_of x) (mag LOG2E * mag x) (2 ^ 1074)"
    using assms(1) ni consts_not_nan by (simp add: dmul_def)
  show "expo_of (dmul LOG2E x) < 2047"
    unfolding d by (rule round_double_bound[OF N D fb le])
  have "mag (dmul LOG2E x) \<le> mag b"
    unfolding d by (rule round_double_bound[OF N D fb le])
  then show "mag (dmul LOG2E x) \<le> 2045 * 2 ^ 1073" unfolding mb' .
qed

lemma round_double_bound_k:
  assumes N: "0 \<le> N" and k: "2 ^ 52 \<le> k" "k < 2 ^ 53" and e: "e < 2046" and le: "N \<le> k * 2 ^ e"
  shows "expo_of (round_double s N 1) < 2047"
    and "mag (round_double s N 1) \<le> k * 2 ^ e"
    and "sign_of (round_double s N 1) = s"
proof -
  define b where "b = mk_double False (Suc e) (k - 2 ^ 52)"
  have eb: "expo_of b = Suc e" and mb: "mag b = k * 2 ^ e"
    unfolding b_def by (rule mag_mk_normal[OF k e])+
  have fb: "expo_of b < 2047" using eb e by simp
  have le': "N \<le> mag b * 1" using le mb by simp
  have D: "(0::int) < 1" by simp
  show "expo_of (round_double s N 1) < 2047" by (rule round_double_bound[OF N D fb le'])
  show "sign_of (round_double s N 1) = s" by (rule round_double_bound[OF N D fb le'])
  have "mag (round_double s N 1) \<le> mag b" by (rule round_double_bound[OF N D fb le'])
  then show "mag (round_double s N 1) \<le> k * 2 ^ e" unfolding mb .
qed

lemma dadd_half_bound:
  assumes t: "expo_of t < 2047" and m: "mag t \<le> 2045 * 2 ^ 1073"
  shows "expo_of (dadd t (dec_lit 5 (- 1))) < 2047"
    and "- (1022 * 2 ^ 1074) \<le> sval (dadd t (dec_lit 5 (- 1)))"
    and "sval (dadd t (dec_lit 5 (- 1))) \<le> 1023 * 2 ^ 1074"
proof -
  let ?h = "dec_lit 5 (- 1)"
  define s where "s = sval t + sval ?h"
  have nt: "\<not> is_nan t" "\<not> is_inf t" using t by (simp_all add: is_nan_def is_inf_def)
  have sh: "sval ?h = 2 ^ 1073" by (simp add: sval_def half_fields mag_half)
  have at: "\<bar>sval t\<bar> \<le> 2045 * 2 ^ 1073" using m by (simp only: mag_le_abs_sval)
  have d: "dadd t ?h = (if s = 0 then dzero (sign_of t \<and> sign_of ?h) else round_double (s < 0) \<bar>s\<bar> 1)"
    using nt consts_not_nan by (simp add: dadd_def s_def Let_def)
  have P: "expo_of (dadd t ?h) < 2047 \<and> - (1022 * 2 ^ 1074) \<le> sval (dadd t ?h)
      \<and> sval (dadd t ?h) \<le> 1023 * 2 ^ 1074"
  proof (cases "s = 0")
    case True
    then have "dadd t ?h = dzero (sign_of t \<and> sign_of ?h)" using d by simp
    then show ?thesis by (simp add: dzero_fields sval_def mag_dzero)
  next
    case False
    show ?thesis
    proof (cases "s < 0")
      case True
      then have e: "dadd t ?h = round_double True \<bar>s\<bar> 1" using d False by simp
      have "\<bar>s\<bar> \<le> 2044 * 2 ^ 1073" using True at unfolding s_def sh by linarith
      also have "(2044::int) * 2 ^ 1073 = (1022 * 2 ^ 43) * 2 ^ 1031" by simp
      finally have le: "\<bar>s\<bar> \<le> (1022 * 2 ^ 43) * 2 ^ 1031" .
      have N: "0 \<le> \<bar>s\<bar>" by simp
      note R = round_double_bound_k[OF N _ _ _ le, of True]
      have "expo_of (dadd t ?h) < 2047" unfolding e by (rule R) simp_all
      moreover have "sign_of (dadd t ?h) = True" unfolding e by (rule R) simp_all
      moreover have "mag (dadd t ?h) \<le> (1022 * 2 ^ 43) * 2 ^ 1031" unfolding e by (rule R) simp_all
      ultimately show ?thesis using mag_nonneg[of "dadd t ?h"] by (simp add: sval_def)
    next
      case nonneg: False
      then have e: "dadd t ?h = round_double False \<bar>s\<bar> 1" using d False by simp
      have "\<bar>s\<bar> \<le> 2046 * 2 ^ 1073" using nonneg at unfolding s_def sh by linarith
      also have "(2046::int) * 2 ^ 1073 = (1023 * 2 ^ 43) * 2 ^ 1031" by simp
      finally have le: "\<bar>s\<bar> \<le> (1023 * 2 ^ 43) * 2 ^ 1031" .
      have N: "0 \<le> \<bar>s\<bar>" by simp
      note R = round_double_bound_k[OF N _ _ _ le, of False]
      have "expo_of (dadd t ?h) < 2047" unfolding e by (rule R) simp_all
      moreover have "sign_of (dadd t ?h) = False" unfolding e by (rule R) simp_all
      moreover have "mag (dadd t ?h) \<le> (1023 * 2 ^ 43) * 2 ^ 1031" unfolding e by (rule R) simp_all
      ultimately show ?thesis using mag_nonneg[of "dadd t ?h"] by (simp add: sval_def)
    qed
  qed
  then show "expo_of (dadd t ?h) < 2047"
    and "- (1022 * 2 ^ 1074) \<le> sval (dadd t ?h)"
    and "sval (dadd t ?h) \<le> 1023 * 2 ^ 1074" by simp_all
qed

lemma int_of_double_bound:
  assumes u: "expo_of u < 2047" and lo: "- (a * 2 ^ 1074) \<le> sval u" and hi: "sval u \<le> b * 2 ^ 1074"
    and a: "0 \<le> a" "a \<le> 2 ^ 31" and b: "0 \<le> b" "b < 2 ^ 31"
  shows "\<exists>n. int_of_double u = Some n \<and> - a \<le> n \<and> n \<le> b"
proof -
  define q where "q = mag u div 2 ^ 1074"
  have q0: "0 \<le> q" unfolding q_def using mag_nonneg[of u] by (simp add: pos_imp_zdiv_nonneg_iff)
  define t where "t = (if sign_of u then - q else q)"
  have tb: "- a \<le> t \<and> t \<le> b"
  proof (cases "sign_of u")
    case True
    then have "mag u \<le> a * 2 ^ 1074" using lo by (simp add: sval_def)
    then have "mag u div 2 ^ 1074 \<le> (a * 2 ^ 1074) div 2 ^ 1074" by (rule zdiv_mono1) simp
    then have "q \<le> a" by (simp add: q_def)
    then show ?thesis using True q0 b by (simp add: t_def)
  next
    case False
    then have "mag u \<le> b * 2 ^ 1074" using hi by (simp add: sval_def)
    then have "mag u div 2 ^ 1074 \<le> (b * 2 ^ 1074) div 2 ^ 1074" by (rule zdiv_mono1) simp
    then have "q \<le> b" by (simp add: q_def)
    then show ?thesis using False q0 a by (simp add: t_def)
  qed
  then have r: "- (2 ^ 31) \<le> t \<and> t < 2 ^ 31" using a b by linarith
  have "int_of_double u = Some t"
    using u r unfolding int_of_double_def Let_def t_def q_def by simp
  then show ?thesis using tb by blast
qed

lemma fastexp_n_range:
  assumes "\<not> is_nan x" "\<not> dlt MAXLOG x" "\<not> dlt x MINLOG"
  shows "\<exists>n. fastexp_n x = Some n \<and> - 1022 \<le> n \<and> n \<le> 1023"
proof -
  note T = dmul_LOG2E_bound[OF assms]
  note U = dadd_half_bound[OF T]
  show ?thesis unfolding fastexp_n_def
    using int_of_double_bound[OF U, simplified] by simp
qed

lemma fastexp_n_nan: "is_nan x \<Longrightarrow> fastexp_n x = None"
  by (simp add: fastexp_n_def dmul_nan dadd_nan is_nan_dnan int_of_double_def dnan_fields)

lemma and_7F: "(k::int) AND 0x7F = k mod 2 ^ 7"
proof -
  have "(0x7F::int) = mask 7" by (simp add: mask_eq_exp_minus_1)
  then show ?thesis by (simp only: take_bit_eq_mask[symmetric] take_bit_eq_mod)
qed

lemma and_0F: "(k::int) AND 0x0F = k mod 2 ^ 4"
proof -
  have "(0x0F::int) = mask 4" by (simp add: mask_eq_exp_minus_1)
  then show ?thesis by (simp only: take_bit_eq_mask[symmetric] take_bit_eq_mod)
qed

lemma uint_byte: "0 \<le> k \<Longrightarrow> k < 256 \<Longrightarrow> uint (word_of_int k :: 8 word) = k"
  by (simp add: uint_word_of_int_eq take_bit_int_eq_self)

lemma bytes_of_zero: "bytes_of_double 0 = [0, 0, 0, 0, 0, 0, 0, 0]"
  by (simp add: bytes_of_double_def upt_8)

lemma double_of_bytes_top:
  "double_of_bytes [0, 0, 0, 0, 0, 0, b6, b7] = word_of_int (uint b6 * 2 ^ 48 + uint b7 * 2 ^ 56)"
  by (simp add: double_of_bytes_def upt_8)

lemma fastexp_pow2_bits:
  assumes "0 \<le> n + 1023" "n + 1023 < 2048"
  shows "fastexp_pow2 n = Some (mk_double False (nat (n + 1023)) 0)"
proof -
  define v where "v = n + 1023"
  have v: "0 \<le> v" "v < 2048" using assms by (simp_all add: v_def)
  have d: "0 \<le> v div 16" "v div 16 < 128" using v by simp_all
  have "drop_bit 4 v AND 0x7F = (v div 16) mod 2 ^ 7"
    unfolding and_7F by (simp add: drop_bit_eq_div)
  also have "\<dots> = v div 16" using d by simp
  finally have q: "drop_bit 4 v AND 0x7F = v div 16" .
  have "uint (word_of_int (v div 16) :: 8 word) = v div 16"
    by (rule uint_byte) (use d in simp_all)
  then have b7: "uint (word_of_int (drop_bit 4 v AND 0x7F) :: 8 word) = v div 16"
    unfolding q .
  have m: "0 \<le> v mod 16" "v mod 16 < 16" by simp_all
  have p: "push_bit 4 (v AND 0x0F) = (v mod 16) * 16"
    unfolding and_0F by (simp add: push_bit_eq_mult)
  have "uint (word_of_int ((v mod 16) * 16) :: 8 word) = (v mod 16) * 16"
    by (rule uint_byte) (use m in simp_all)
  then have b6: "uint (word_of_int (push_bit 4 (v AND 0x0F)) :: 8 word) = (v mod 16) * 16"
    unfolding p .
  define q r where "q = v div 16" and "r = v mod 16"
  have vq: "v = 16 * q + r" by (simp add: q_def r_def)
  have "r * 16 * 2 ^ 48 + q * 2 ^ 56 = (16 * q + r) * 2 ^ 52" by (simp add: algebra_simps)
  also have "\<dots> = v * 2 ^ 52" by (simp only: vq)
  finally have s: "(v mod 16) * 16 * 2 ^ 48 + (v div 16) * 2 ^ 56 = v * 2 ^ 52"
    unfolding q_def r_def .
  have "double_of_bytes [0, 0, 0, 0, 0, 0, word_of_int (push_bit 4 (v AND 0x0F)),
      word_of_int (drop_bit 4 v AND 0x7F)] = word_of_int (v * 2 ^ 52)"
    unfolding double_of_bytes_top b6 b7 s ..
  also have "\<dots> = mk_double False (nat v) 0" using v by (simp add: mk_double_def)
  finally have r: "double_of_bytes [0, 0, 0, 0, 0, 0, word_of_int (push_bit 4 (v AND 0x0F)),
      word_of_int (drop_bit 4 v AND 0x7F)] = mk_double False (nat v) 0" .
  have lt: "\<not> 2 ^ 31 \<le> v" using v by simp
  show ?thesis
    unfolding fastexp_pow2_def Let_def v_def[symmetric] double_of_int_zero bytes_of_zero
    using lt r by simp
qed

lemma pow2_fields:
  assumes "1 \<le> n + 1023" "n + 1023 < 2047"
  shows "sign_of (mk_double False (nat (n + 1023)) 0) = False"
    and "expo_of (mk_double False (nat (n + 1023)) 0) = nat (n + 1023)"
    and "frac_of (mk_double False (nat (n + 1023)) 0) = 0"
    and "mag (mk_double False (nat (n + 1023)) 0) = 2 ^ nat (n + 1074)"
proof -
  have e: "nat (n + 1023) < 2048" using assms by simp
  have f: "(0::int) \<le> 0" "(0::int) < 2 ^ 52" by simp_all
  show "sign_of (mk_double False (nat (n + 1023)) 0) = False"
    and "expo_of (mk_double False (nat (n + 1023)) 0) = nat (n + 1023)"
    and "frac_of (mk_double False (nat (n + 1023)) 0) = 0"
    by (rule mk_double_fields[OF e f])+
  have "nat (n + 1074) = 52 + (nat (n + 1023) - 1)" using assms by simp
  then have "(2::int) ^ nat (n + 1074) = 2 ^ 52 * 2 ^ (nat (n + 1023) - 1)"
    by (simp only: power_add)
  then show "mag (mk_double False (nat (n + 1023)) 0) = 2 ^ nat (n + 1074)"
    unfolding mag_mk_double[OF e f] using assms by simp
qed

section \<open>fastexp at concrete inputs\<close>

lemma dec_lit_709: "dec_lit 709 0 = 0x4086280000000000"
proof -
  have "round_double False (709 * 10 ^ 0 * 2 ^ (1031 + 43)) (1) = mk_double False (1031 + 1) (6236429952745472 - 2 ^ 52)"
    by (rule round_double_normal_eqI2[where k=6236429952745472]) simp_all
  then show ?thesis by (simp add: dec_lit_def mk_double_def)
qed

lemma fields_709: "expo_of (dec_lit 709 0) = 1032" "frac_of (dec_lit 709 0) = 1732830325374976"
  "sign_of (dec_lit 709 0) = False"
  by (simp_all add: dec_lit_709 expo_of_def frac_of_def sign_of_def)

lemma mag_709: "mag (dec_lit 709 0) = 6236429952745472 * 2 ^ 1031"
  by (rule mag_eqI) (simp_all add: fields_709)

lemma dlt_MAXLOG_709: "dlt MAXLOG (dec_lit 709 0)"
proof -
  have "\<not> is_nan (dec_lit 709 0)" by (simp add: is_nan_def fields_709)
  moreover have "sval (dec_lit 709 0) = mag (dec_lit 709 0)" by (simp add: sval_def fields_709)
  moreover have "(6231120794008786::int) * 2 ^ 1031 < 6236429952745472 * 2 ^ 1031"
    by (rule mult_strict_right_mono) simp_all
  ultimately show ?thesis
    unfolding dlt_def sval_MAXLOG mag_MAXLOG mag_709 using consts_not_nan by simp
qed

lemma dneg_fields: "sign_of (dneg w) = (\<not> sign_of w)" "expo_of (dneg w) = expo_of w"
  "frac_of (dneg w) = frac_of w"
  unfolding dneg_def by (rule mk_double_fields[OF expo_of_bound frac_of_bounds])+

lemma mag_dneg: "mag (dneg w) = mag w"
  by (simp add: mag_def dneg_fields)

lemma sval_dneg: "sval (dneg w) = - sval w"
  by (simp add: sval_def dneg_fields mag_dneg)

lemma is_nan_dneg: "is_nan (dneg w) = is_nan w" and is_inf_dneg: "is_inf (dneg w) = is_inf w"
  by (simp_all add: is_nan_def is_inf_def dneg_fields)

lemma dlt_neg709_MINLOG: "dlt (dneg (dec_lit 709 0)) MINLOG"
proof -
  have "sval MAXLOG < sval (dec_lit 709 0)" using dlt_MAXLOG_709 by (simp add: dlt_def)
  then have "sval (dneg (dec_lit 709 0)) < sval MINLOG"
    unfolding sval_dneg sval_MINLOG sval_MAXLOG by simp
  moreover have "\<not> is_nan (dec_lit 709 0)" by (simp add: is_nan_def fields_709)
  ultimately show ?thesis using consts_not_nan by (simp add: dlt_def is_nan_dneg)
qed

lemma dmul_dneg_one:
  assumes "expo_of x < 2047"
  shows "dmul x (dneg (dec_lit 1 0)) = dneg x"
proof -
  have nx: "\<not> is_nan x" "\<not> is_inf x" using assms by (simp_all add: is_nan_def is_inf_def)
  have n1: "\<not> is_nan (dneg (dec_lit 1 0))" "\<not> is_inf (dneg (dec_lit 1 0))"
    by (simp_all add: is_nan_def is_inf_def dneg_fields one_fields)
  have s: "(sign_of x \<noteq> sign_of (dneg (dec_lit 1 0))) = (\<not> sign_of x)"
    by (simp add: dneg_fields one_fields)
  have "round_double (\<not> sign_of x) (mag x * 2 ^ 1074) (2 ^ 1074) = mk_double (\<not> sign_of x) (expo_of x) (frac_of x)"
    by (rule round_double_exact[OF assms]) simp
  then have "round_double (\<not> sign_of x) (mag x * mag (dneg (dec_lit 1 0))) (2 ^ 1074) = dneg x"
    unfolding mag_dneg mag_one dneg_def[of x] .
  then show ?thesis
    unfolding dmul_def s using nx n1 by (simp del: power_numeral)
qed

lemma neg_LOG2E_fields: "sign_of (dneg LOG2E) = True" "expo_of (dneg LOG2E) = 1023"
  "frac_of (dneg LOG2E) = 1993721221186302" "mag (dneg LOG2E) = 6497320848556798 * 2 ^ 1022"
  by (simp_all add: dneg_fields mag_dneg LOG2E_fields mag_LOG2E del: power_numeral)

lemma dadd_neg_LOG2E_half:
  "dadd (dneg LOG2E) (dec_lit 5 (- 1)) = mk_double True (1021 + 1) (8491042069743100 - 2 ^ 52)"
proof -
  have n: "\<not> is_nan (dneg LOG2E)" "\<not> is_inf (dneg LOG2E)"
    by (simp_all add: is_nan_def is_inf_def neg_LOG2E_fields)
  have s: "sval (dneg LOG2E) + sval (dec_lit 5 (- 1)) = - (8491042069743100 * 2 ^ (1021 + 0))"
    by (simp add: sval_def neg_LOG2E_fields half_fields mag_half)
  have r: "round_double True (8491042069743100 * 2 ^ (1021 + 0)) 1 =
      mk_double True (1021 + 1) (8491042069743100 - 2 ^ 52)"
    by (rule round_double_normal_eqI2[where k=8491042069743100]) simp_all
  have nz: "- (8491042069743100 * 2 ^ (1021 + 0)) \<noteq> (0::int)"
    "- (8491042069743100 * 2 ^ (1021 + 0)) < (0::int)"
    "\<bar>- (8491042069743100 * 2 ^ (1021 + 0))\<bar> = (8491042069743100 * 2 ^ (1021 + 0) :: int)"
    by (simp_all del: power_numeral)
  show ?thesis
    unfolding dadd_def Let_def s using n consts_not_nan nz r by (simp del: power_numeral)
qed

lemma fastexp_n_neg_one: "fastexp_n (dneg (dec_lit 1 0)) = Some 0"
proof -
  have a: "dmul LOG2E (dneg (dec_lit 1 0)) = dneg LOG2E"
    by (rule dmul_dneg_one) (simp add: LOG2E_fields)
  define u where "u = mk_double True (Suc 1021) (8491042069743100 - 2 ^ 52)"
  have f: "expo_of u = Suc 1021" "mag u = 8491042069743100 * 2 ^ 1021" "sign_of u = True"
    unfolding u_def by (rule mag_mk_normal; simp)+
  have "(8491042069743100::int) * 2 ^ 1021 < 2 ^ 53 * 2 ^ 1021"
    by (rule mult_strict_right_mono) simp_all
  also have "(2::int) ^ 53 * 2 ^ 1021 = 2 ^ 1074" by (simp del: power_numeral add: power_add[symmetric])
  finally have "mag u div 2 ^ 1074 = 0" unfolding f by (simp add: div_pos_pos_trivial del: power_numeral)
  then have "int_of_double u = Some 0"
    by (simp add: int_of_double_def f Let_def del: power_numeral)
  then show ?thesis
    unfolding fastexp_n_def a dadd_neg_LOG2E_half u_def by simp
qed

lemma spec_fastexp_n_neg_one: "spec_fastexp_n (dneg (dec_lit 1 0)) = - 1"
proof -
  have a: "dmul (dneg (dec_lit 1 0)) LOG2E = dneg LOG2E"
    unfolding dmul_commute[of "dneg (dec_lit 1 0)"] by (rule dmul_dneg_one) (simp add: LOG2E_fields)
  show ?thesis
    unfolding spec_fastexp_n_def a nearest_int_def by (simp add: neg_LOG2E_fields)
qed

section \<open>Evaluating one operation\<close>

text \<open>The result of an operation on normal doubles, from the significands \<open>kx\<close>, \<open>ky\<close>
  and the exponents of the operands: the significand \<open>k\<close> of the result is the
  exact integer result scaled by \<open>2^c\<close> and rounded to nearest, ties to even.\<close>

lemma rne_div_cancel:
  assumes T: "0 < T"
  shows "rne_div (N * T) (D * T) = rne_div N D"
proof -
  have q: "(N * T) div (D * T) = N div D" using T by simp
  have r: "(N * T) mod (D * T) = (N mod D) * T" by (metis mult.commute mult_mod_right)
  have a: "(2 * ((N mod D) * T) < D * T) = (2 * (N mod D) < D)"
    using T by (simp add: mult.assoc[symmetric])
  have b: "(D * T < 2 * ((N mod D) * T)) = (D < 2 * (N mod D))"
    using T by (simp add: mult.assoc[symmetric])
  show ?thesis unfolding rne_div_def Let_def q r a b ..
qed

lemma round_double_cancel:
  assumes T: "0 < T"
  shows "round_double s (N * T) (D * T) = round_double s N D"
proof -
  have q: "(N * T) div (D * T) = N div D" using T by simp
  have c: "rne_div (N * T) (D * T * 2 ^ sh) = rne_div N (D * 2 ^ sh)" for sh
  proof -
    have e: "D * T * 2 ^ sh = (D * 2 ^ sh) * T" by (simp add: algebra_simps)
    show ?thesis unfolding e by (rule rne_div_cancel[OF T])
  qed
  show ?thesis unfolding round_double_def round_mag_def Let_def q c ..
qed

lemma round_double_carry_eqI2:
  assumes n: "0 \<le> n" and D: "0 < D"
    and lo: "D * 2 ^ 52 \<le> n * 2 ^ c"
    and hi: "n * 2 ^ c < D * 2 ^ 53"
    and r: "2 * \<bar>n * 2 ^ c - 2 ^ 53 * D\<bar> \<le> D"
    and sh: "sh + 2 < 2047"
  shows "round_double s (n * 2 ^ (sh + c)) D = mk_double s (sh + 2) 0"
proof -
  define T :: int where "T = 2 ^ sh"
  have T: "0 < T" by (simp add: T_def)
  have N: "n * 2 ^ (sh + c) = (n * 2 ^ c) * T" by (simp add: T_def power_add)
  have rm: "round_mag (n * 2 ^ (sh + c)) D = 2 ^ 53 * 2 ^ sh"
  proof (rule round_mag_eqI)
    show "0 \<le> n * 2 ^ (sh + c)" using n by simp
    show "0 < D" by fact
    have "(D * 2 ^ 52) * T \<le> (n * 2 ^ c) * T" using lo T by (simp only: mult_right_mono)
    then show "sh = 0 \<or> D * 2 ^ (52 + sh) \<le> n * 2 ^ (sh + c)"
      unfolding N by (simp add: T_def power_add algebra_simps)
    have "(n * 2 ^ c) * T < (D * 2 ^ 53) * T" using hi T by (simp only: mult_strict_right_mono)
    then show "n * 2 ^ (sh + c) < D * 2 ^ (53 + sh)"
      unfolding N by (simp add: T_def power_add algebra_simps)
    have d: "n * 2 ^ (sh + c) - 2 ^ 53 * (D * 2 ^ sh) = (n * 2 ^ c - 2 ^ 53 * D) * T"
      by (simp add: T_def power_add algebra_simps)
    have a: "2 * \<bar>(n * 2 ^ c - 2 ^ 53 * D) * T\<bar> = (2 * \<bar>n * 2 ^ c - 2 ^ 53 * D\<bar>) * T"
      using T by (simp add: abs_mult)
    have "(2 * \<bar>n * 2 ^ c - 2 ^ 53 * D\<bar>) * T < D * T
        \<or> ((2 * \<bar>n * 2 ^ c - 2 ^ 53 * D\<bar>) * T = D * T \<and> even ((2::int) ^ 53))"
      using r T by auto
    then show "2 * \<bar>n * 2 ^ (sh + c) - 2 ^ 53 * (D * 2 ^ sh)\<bar> < D * 2 ^ sh
          \<or> (2 * \<bar>n * 2 ^ (sh + c) - 2 ^ 53 * (D * 2 ^ sh)\<bar> = D * 2 ^ sh \<and> even ((2::int) ^ 53))"
      unfolding d a by (simp only: T_def)
  qed
  have "(2::int) ^ 53 * 2 ^ sh = 2 ^ 52 * 2 ^ (sh + 1)" by simp
  moreover have "of_mag s (2 ^ 52 * 2 ^ (sh + 1)) = mk_double s (sh + 1 + 1) (2 ^ 52 - 2 ^ 52)"
    by (rule of_mag_norm) (use sh in simp_all)
  ultimately show ?thesis unfolding round_double_def rm by simp
qed

lemma normal_not_special:
  assumes "expo_of x = Suc ex" "ex < 2046"
  shows "\<not> is_nan x" "\<not> is_inf x" "expo_of x < 2047"
  using assms by (simp_all add: is_nan_def is_inf_def)

lemma dmul_eval:
  assumes x: "sign_of x = sx" "expo_of x = Suc ex" "mag x = kx * 2 ^ ex"
    and y: "sign_of y = sy" "expo_of y = Suc ey" "mag y = ky * 2 ^ ey"
    and w: "w = mk_double s (Suc e) (k - 2 ^ 52)"
    and b: "ex < 2046" "ey < 2046" "e < 2046"
    and s: "s = (sx \<noteq> sy)"
    and sc: "ex + ey + c = e + 1074" "c \<le> e"
    and lo: "2 ^ (52 + c) \<le> kx * ky" and hi: "kx * ky < 2 ^ (53 + c)"
    and r: "2 * \<bar>kx * ky - k * 2 ^ c\<bar> < 2 ^ c \<or> (2 * \<bar>kx * ky - k * 2 ^ c\<bar> = 2 ^ c \<and> even k)"
    and k: "2 ^ 52 \<le> k" "k < 2 ^ 53"
  shows "dmul x y = w"
proof -
  note nx = normal_not_special[OF x(2) b(1)] and ny = normal_not_special[OF y(2) b(2)]
  define a where "a = e - c"
  have e: "e = a + c" and xy: "ex + ey = a + 1074" using sc by (simp_all add: a_def)
  have n0: "0 \<le> kx * ky"
  proof -
    have "(0::int) \<le> 2 ^ (52 + c)" by simp
    then show ?thesis using lo by (rule order_trans)
  qed
  have m: "mag x * mag y = (kx * ky * 2 ^ a) * 2 ^ 1074"
    unfolding x y scale_mult xy by (simp only: power_add mult.assoc)
  have "round_double s ((kx * ky * 2 ^ a) * 2 ^ 1074) (1 * 2 ^ 1074) = round_double s (kx * ky * 2 ^ a) 1"
    by (rule round_double_cancel) simp
  also have "\<dots> = mk_double s (a + c + 1) (k - 2 ^ 52)"
    by (rule round_double_normal_eqI3) (use n0 lo hi r k b e in simp_all)
  finally have "round_double s (mag x * mag y) (2 ^ 1074) = mk_double s (Suc e) (k - 2 ^ 52)"
    unfolding m e by (simp del: power_numeral)
  then show ?thesis
    unfolding dmul_def w using nx ny x(1) y(1) s by (simp del: power_numeral)
qed

lemma ddiv_eval:
  assumes x: "sign_of x = sx" "expo_of x = Suc ex" "mag x = kx * 2 ^ ex"
    and y: "sign_of y = sy" "expo_of y = Suc ey" "mag y = ky * 2 ^ ey"
    and w: "w = mk_double s (Suc e) (k - 2 ^ 52)"
    and b: "ex < 2046" "ey < 2046" "e < 2046"
    and s: "s = (sx \<noteq> sy)"
    and sc: "ex + 1074 = e + c + ey"
    and p: "0 \<le> kx" "0 < ky"
    and lo: "ky * 2 ^ 52 \<le> kx * 2 ^ c" and hi: "kx * 2 ^ c < ky * 2 ^ 53"
    and r: "2 * \<bar>kx * 2 ^ c - k * ky\<bar> < ky \<or> (2 * \<bar>kx * 2 ^ c - k * ky\<bar> = ky \<and> even k)"
    and k: "2 ^ 52 \<le> k" "k < 2 ^ 53"
  shows "ddiv x y = w"
proof -
  note nx = normal_not_special[OF x(2) b(1)] and ny = normal_not_special[OF y(2) b(2)]
  have my: "mag y \<noteq> 0" unfolding y using p by simp
  have "mag x * 2 ^ 1074 = kx * 2 ^ (ex + 1074)" unfolding x by (rule scale_assoc)
  also have "\<dots> = (kx * 2 ^ (e + c)) * 2 ^ ey" unfolding sc by (simp only: power_add mult.assoc)
  finally have m: "mag x * 2 ^ 1074 = (kx * 2 ^ (e + c)) * 2 ^ ey" .
  have "round_double s ((kx * 2 ^ (e + c)) * 2 ^ ey) (ky * 2 ^ ey) = round_double s (kx * 2 ^ (e + c)) ky"
    by (rule round_double_cancel) simp
  also have "\<dots> = mk_double s (e + 1) (k - 2 ^ 52)"
    by (rule round_double_normal_eqI2) (use p lo hi r k b in simp_all)
  finally have "round_double s (mag x * 2 ^ 1074) (mag y) = mk_double s (Suc e) (k - 2 ^ 52)"
    unfolding m y by simp
  then show ?thesis
    unfolding ddiv_def w using nx ny my x(1) y(1) s by (simp del: power_numeral)
qed

lemma sval_scaled:
  assumes "sign_of x = sx" "mag x = kx * 2 ^ (a + dx)"
  shows "sval x = ((if sx then - kx else kx) * 2 ^ dx) * 2 ^ a"
  using assms by (simp add: sval_def power_add del: power_numeral)

lemma dadd_round:
  assumes x: "sign_of x = sx" "expo_of x = Suc ex" "mag x = kx * 2 ^ ex"
    and y: "sign_of y = sy" "expo_of y = Suc ey" "mag y = ky * 2 ^ ey"
    and b: "ex < 2046" "ey < 2046"
    and sc: "ex = a + dx" "ey = a + dy"
    and S: "(if sx then - kx else kx) * 2 ^ dx + (if sy then - ky else ky) * 2 ^ dy = S"
    and nz: "S \<noteq> 0"
  shows "dadd x y = round_double (S < 0) (\<bar>S\<bar> * 2 ^ a) 1"
proof -
  note nx = normal_not_special[OF x(2) b(1)] and ny = normal_not_special[OF y(2) b(2)]
  have "sval x + sval y = S * 2 ^ a"
    unfolding sval_scaled[OF x(1) x(3)[unfolded sc]] sval_scaled[OF y(1) y(3)[unfolded sc]]
      S[symmetric] by (simp only: distrib_right)
  moreover have "S * 2 ^ a \<noteq> 0" using nz by simp
  moreover have "(S * 2 ^ a < 0) = (S < 0)" by (simp add: mult_less_0_iff)
  moreover have "\<bar>S * 2 ^ a\<bar> = \<bar>S\<bar> * 2 ^ a" by (simp add: abs_mult)
  ultimately show ?thesis
    unfolding dadd_def Let_def using nx ny by (simp del: power_numeral)
qed

lemma dadd_eval_r:
  assumes x: "sign_of x = sx" "expo_of x = Suc ex" "mag x = kx * 2 ^ ex"
    and y: "sign_of y = sy" "expo_of y = Suc ey" "mag y = ky * 2 ^ ey"
    and w: "w = mk_double s (Suc e) (k - 2 ^ 52)"
    and b: "ex < 2046" "ey < 2046" "e < 2046"
    and sc: "ex = a + dx" "ey = a + dy" "e = a + c"
    and S: "(if sx then - kx else kx) * 2 ^ dx + (if sy then - ky else ky) * 2 ^ dy = S"
    and s: "S \<noteq> 0" "s = (S < 0)"
    and lo: "2 ^ (52 + c) \<le> \<bar>S\<bar>" and hi: "\<bar>S\<bar> < 2 ^ (53 + c)"
    and r: "2 * \<bar>\<bar>S\<bar> - k * 2 ^ c\<bar> < 2 ^ c \<or> (2 * \<bar>\<bar>S\<bar> - k * 2 ^ c\<bar> = 2 ^ c \<and> even k)"
    and k: "2 ^ 52 \<le> k" "k < 2 ^ 53"
  shows "dadd x y = w"
proof -
  have "round_double s (\<bar>S\<bar> * 2 ^ a) 1 = mk_double s (a + c + 1) (k - 2 ^ 52)"
    by (rule round_double_normal_eqI3) (use lo hi r k b sc in simp_all)
  then show ?thesis
    unfolding dadd_round[OF x y b(1,2) sc(1,2) S s(1)] w s(2) sc(3) by simp
qed

lemma dadd_eval_l:
  assumes x: "sign_of x = sx" "expo_of x = Suc ex" "mag x = kx * 2 ^ ex"
    and y: "sign_of y = sy" "expo_of y = Suc ey" "mag y = ky * 2 ^ ey"
    and w: "w = mk_double s (Suc e) (k - 2 ^ 52)"
    and b: "ex < 2046" "ey < 2046" "e < 2046"
    and sc: "ex = a + dx" "ey = a + dy" "a = e + c"
    and S: "(if sx then - kx else kx) * 2 ^ dx + (if sy then - ky else ky) * 2 ^ dy = S"
    and s: "S \<noteq> 0" "s = (S < 0)"
    and ex: "\<bar>S\<bar> * 2 ^ c = k"
    and k: "2 ^ 52 \<le> k" "k < 2 ^ 53"
  shows "dadd x y = w"
proof -
  have "round_double s (\<bar>S\<bar> * 2 ^ (e + c)) 1 = mk_double s (e + 1) (k - 2 ^ 52)"
    by (rule round_double_normal_eqI2) (use ex k b in simp_all)
  then show ?thesis
    unfolding dadd_round[OF x y b(1,2) sc(1,2) S s(1)] w s(2) sc(3) by simp
qed

lemma dneg_normal:
  assumes "sign_of y = sy" "expo_of y = Suc ey" "mag y = ky * 2 ^ ey"
  shows "sign_of (dneg y) = (\<not> sy)" "expo_of (dneg y) = Suc ey" "mag (dneg y) = ky * 2 ^ ey"
  using assms by (simp_all add: dneg_fields mag_dneg)

lemma dsub_eval_r:
  assumes x: "sign_of x = sx" "expo_of x = Suc ex" "mag x = kx * 2 ^ ex"
    and y: "sign_of y = sy" "expo_of y = Suc ey" "mag y = ky * 2 ^ ey"
    and w: "w = mk_double s (Suc e) (k - 2 ^ 52)"
    and b: "ex < 2046" "ey < 2046" "e < 2046"
    and sc: "ex = a + dx" "ey = a + dy" "e = a + c"
    and S: "(if sx then - kx else kx) * 2 ^ dx + (if \<not> sy then - ky else ky) * 2 ^ dy = S"
    and s: "S \<noteq> 0" "s = (S < 0)"
    and lo: "2 ^ (52 + c) \<le> \<bar>S\<bar>" and hi: "\<bar>S\<bar> < 2 ^ (53 + c)"
    and r: "2 * \<bar>\<bar>S\<bar> - k * 2 ^ c\<bar> < 2 ^ c \<or> (2 * \<bar>\<bar>S\<bar> - k * 2 ^ c\<bar> = 2 ^ c \<and> even k)"
    and k: "2 ^ 52 \<le> k" "k < 2 ^ 53"
  shows "dsub x y = w"
  unfolding dsub_def by (rule dadd_eval_r[OF x dneg_normal[OF y] w b sc S s lo hi r k])

lemma dsub_eval_l:
  assumes x: "sign_of x = sx" "expo_of x = Suc ex" "mag x = kx * 2 ^ ex"
    and y: "sign_of y = sy" "expo_of y = Suc ey" "mag y = ky * 2 ^ ey"
    and w: "w = mk_double s (Suc e) (k - 2 ^ 52)"
    and b: "ex < 2046" "ey < 2046" "e < 2046"
    and sc: "ex = a + dx" "ey = a + dy" "a = e + c"
    and S: "(if sx then - kx else kx) * 2 ^ dx + (if \<not> sy then - ky else ky) * 2 ^ dy = S"
    and s: "S \<noteq> 0" "s = (S < 0)"
    and ex: "\<bar>S\<bar> * 2 ^ c = k"
    and k: "2 ^ 52 \<le> k" "k < 2 ^ 53"
  shows "dsub x y = w"
  unfolding dsub_def by (rule dadd_eval_l[OF x dneg_normal[OF y] w b sc S s ex k])

section \<open>fastexp at 1.0, one operation at a time\<close>

text \<open>The constants of the two polynomials, then every intermediate value of
  \<open>fastexp(1.0)\<close> as its bit pattern: the reduced argument, \<open>px\<close>, \<open>qx\<close>, the
  quotient \<open>px / (qx - px)\<close>, and \<open>1 + 2r\<close> times \<open>2^1\<close>.\<close>

lemma dec_lit_P0: "dec_lit 126177193074810590878 (- 24) = 0x3F2089CDD5E44BE8"
proof -
  have "round_double False (126177193074810590878 * 2 ^ (1009 + 65)) (10 ^ 24) = mk_double False (1009 + 1) (4655116777180136 - 2 ^ 52)"
    by (rule round_double_normal_eqI2[where k=4655116777180136]) simp_all
  then show ?thesis by (simp add: dec_lit_def mk_double_def)
qed

lemma dec_lit_P1: "dec_lit 302994407707441961300 (- 22) = 0x3F9F06D10CCA2C7E"
proof -
  have "round_double False (302994407707441961300 * 2 ^ (1016 + 58)) (10 ^ 22) = mk_double False (1016 + 1) (8733219210538110 - 2 ^ 52)"
    by (rule round_double_normal_eqI2[where k=8733219210538110]) simp_all
  then show ?thesis by (simp add: dec_lit_def mk_double_def)
qed

lemma dec_lit_P2: "dec_lit 999999999999999999910 (- 21) = 0x3FF0000000000000"
proof -
  have "round_double False (999999999999999999910 * 2 ^ (1021 + 53)) (10 ^ 21) = mk_double False (1021 + 2) 0"
    by (rule round_double_carry_eqI2) simp_all
  then show ?thesis by (simp add: dec_lit_def mk_double_def)
qed

lemma dec_lit_Q0: "dec_lit 300198505138664455042 (- 26) = 0x3EC92EB6BC365FA0"
proof -
  have "round_double False (300198505138664455042 * 2 ^ (1003 + 71)) (10 ^ 26) = mk_double False (1003 + 1) (7088236794372000 - 2 ^ 52)"
    by (rule round_double_normal_eqI2[where k=7088236794372000]) simp_all
  then show ?thesis by (simp add: dec_lit_def mk_double_def)
qed

lemma dec_lit_Q1: "dec_lit 252448340349684104192 (- 23) = 0x3F64AE39B508B6C0"
proof -
  have "round_double False (252448340349684104192 * 2 ^ (1013 + 61)) (10 ^ 23) = mk_double False (1013 + 1) (5821062407829184 - 2 ^ 52)"
    by (rule round_double_normal_eqI2[where k=5821062407829184]) simp_all
  then show ?thesis by (simp add: dec_lit_def mk_double_def)
qed

lemma dec_lit_Q2: "dec_lit 227265548208155028766 (- 21) = 0x3FCD17099887E074"
proof -
  have "round_double False (227265548208155028766 * 2 ^ (1019 + 55)) (10 ^ 21) = mk_double False (1019 + 1) (8188104305795188 - 2 ^ 52)"
    by (rule round_double_normal_eqI2[where k=8188104305795188]) simp_all
  then show ?thesis by (simp add: dec_lit_def mk_double_def)
qed

lemma dec_lit_Q3: "dec_lit 200000000000000000009 (- 20) = 0x4000000000000000"
proof -
  have "round_double False (200000000000000000009 * 2 ^ (1023 + 51)) (10 ^ 20) = mk_double False (1023 + 1) (4503599627370496 - 2 ^ 52)"
    by (rule round_double_normal_eqI2[where k=4503599627370496]) simp_all
  then show ?thesis by (simp add: dec_lit_def mk_double_def)
qed

lemma double_of_int_one: "double_of_int 1 = 0x3FF0000000000000"
proof -
  have "round_double False (1 * 2 ^ (1022 + 52)) 1 = mk_double False (1022 + 1) (4503599627370496 - 2 ^ 52)"
    by (rule round_double_normal_eqI2[where k=4503599627370496]) simp_all
  then show ?thesis by (simp add: double_of_int_def mk_double_def)
qed

lemma C1_bits: "C1 = 0x3FE62E4000000000"
  by (simp add: C1_def dec_lit_C1)

lemma C2_bits: "C2 = 0x3EB7F7D1CF79ABCA"
  by (simp add: C2_def dec_lit_C2)

lemma fields_one:
  "sign_of 0x3FF0000000000000 = False" "expo_of 0x3FF0000000000000 = Suc 1022" "mag 0x3FF0000000000000 = 4503599627370496 * 2 ^ 1022"
proof -
  show "sign_of 0x3FF0000000000000 = False" by (simp add: sign_of_def)
  show e: "expo_of 0x3FF0000000000000 = Suc 1022" by (simp add: expo_of_def)
  show "mag 0x3FF0000000000000 = 4503599627370496 * 2 ^ 1022" by (rule mag_eqI[OF e]) (simp add: frac_of_def)
qed

lemma fields_C1:
  "sign_of 0x3FE62E4000000000 = False" "expo_of 0x3FE62E4000000000 = Suc 1021" "mag 0x3FE62E4000000000 = 6243301900419072 * 2 ^ 1021"
proof -
  show "sign_of 0x3FE62E4000000000 = False" by (simp add: sign_of_def)
  show e: "expo_of 0x3FE62E4000000000 = Suc 1021" by (simp add: expo_of_def)
  show "mag 0x3FE62E4000000000 = 6243301900419072 * 2 ^ 1021" by (rule mag_eqI[OF e]) (simp add: frac_of_def)
qed

lemma fields_C2:
  "sign_of 0x3EB7F7D1CF79ABCA = False" "expo_of 0x3EB7F7D1CF79ABCA = Suc 1002" "mag 0x3EB7F7D1CF79ABCA = 6746404965428170 * 2 ^ 1002"
proof -
  show "sign_of 0x3EB7F7D1CF79ABCA = False" by (simp add: sign_of_def)
  show e: "expo_of 0x3EB7F7D1CF79ABCA = Suc 1002" by (simp add: expo_of_def)
  show "mag 0x3EB7F7D1CF79ABCA = 6746404965428170 * 2 ^ 1002" by (rule mag_eqI[OF e]) (simp add: frac_of_def)
qed

lemma one_t1: "dmul 0x3FF0000000000000 0x3FE62E4000000000 = 0x3FE62E4000000000"
  by (rule dmul_eval[OF fields_one fields_C1, where s=False and e=1021 and k=6243301900419072 and c=52])
    (simp_all add: mk_double_def)

lemma one_x1: "dsub 0x3FF0000000000000 0x3FE62E4000000000 = 0x3FD3A38000000000"
  by (rule dsub_eval_l[OF fields_one fields_C1, where s=False and e=1020 and k=5527794708643840 and c=1 and a=1021 and dx=1 and dy=0 and S="2763897354321920"])
    (simp_all add: mk_double_def)

lemma fields_x1:
  "sign_of 0x3FD3A38000000000 = False" "expo_of 0x3FD3A38000000000 = Suc 1020" "mag 0x3FD3A38000000000 = 5527794708643840 * 2 ^ 1020"
proof -
  show "sign_of 0x3FD3A38000000000 = False" by (simp add: sign_of_def)
  show e: "expo_of 0x3FD3A38000000000 = Suc 1020" by (simp add: expo_of_def)
  show "mag 0x3FD3A38000000000 = 5527794708643840 * 2 ^ 1020" by (rule mag_eqI[OF e]) (simp add: frac_of_def)
qed

lemma one_t2: "dmul 0x3FF0000000000000 0x3EB7F7D1CF79ABCA = 0x3EB7F7D1CF79ABCA"
  by (rule dmul_eval[OF fields_one fields_C2, where s=False and e=1002 and k=6746404965428170 and c=52])
    (simp_all add: mk_double_def)

lemma one_x2: "dsub 0x3FD3A38000000000 0x3EB7F7D1CF79ABCA = 0x3FD3A37A020B8C22"
  by (rule dsub_eval_r[OF fields_x1 fields_C2, where s=False and e=1020 and k=5527768973151266 and c=18 and a=1002 and dx=18 and dy=0 and S="1449071469697765364790"])
    (simp_all add: mk_double_def)

lemma fields_x2:
  "sign_of 0x3FD3A37A020B8C22 = False" "expo_of 0x3FD3A37A020B8C22 = Suc 1020" "mag 0x3FD3A37A020B8C22 = 5527768973151266 * 2 ^ 1020"
proof -
  show "sign_of 0x3FD3A37A020B8C22 = False" by (simp add: sign_of_def)
  show e: "expo_of 0x3FD3A37A020B8C22 = Suc 1020" by (simp add: expo_of_def)
  show "mag 0x3FD3A37A020B8C22 = 5527768973151266 * 2 ^ 1020" by (rule mag_eqI[OF e]) (simp add: frac_of_def)
qed

lemma fastexp_reduce_one: "fastexp_reduce (dec_lit 1 0) 1 = 0x3FD3A37A020B8C22"
  by (simp only: fastexp_reduce_def Let_def double_of_int_one dec_lit_one C1_bits C2_bits one_t1 one_x1 one_t2 one_x2)

lemma one_xx: "dmul 0x3FD3A37A020B8C22 0x3FD3A37A020B8C22 = 0x3FB81AC80E677748"
  by (rule dmul_eval[OF fields_x2 fields_x2, where s=False and e=1018 and k=6784845978498888 and c=52])
    (simp_all add: mk_double_def)

lemma fields_xx:
  "sign_of 0x3FB81AC80E677748 = False" "expo_of 0x3FB81AC80E677748 = Suc 1018" "mag 0x3FB81AC80E677748 = 6784845978498888 * 2 ^ 1018"
proof -
  show "sign_of 0x3FB81AC80E677748 = False" by (simp add: sign_of_def)
  show e: "expo_of 0x3FB81AC80E677748 = Suc 1018" by (simp add: expo_of_def)
  show "mag 0x3FB81AC80E677748 = 6784845978498888 * 2 ^ 1018" by (rule mag_eqI[OF e]) (simp add: frac_of_def)
qed

lemma fields_P0:
  "sign_of 0x3F2089CDD5E44BE8 = False" "expo_of 0x3F2089CDD5E44BE8 = Suc 1009" "mag 0x3F2089CDD5E44BE8 = 4655116777180136 * 2 ^ 1009"
proof -
  show "sign_of 0x3F2089CDD5E44BE8 = False" by (simp add: sign_of_def)
  show e: "expo_of 0x3F2089CDD5E44BE8 = Suc 1009" by (simp add: expo_of_def)
  show "mag 0x3F2089CDD5E44BE8 = 4655116777180136 * 2 ^ 1009" by (rule mag_eqI[OF e]) (simp add: frac_of_def)
qed

lemma fields_P1:
  "sign_of 0x3F9F06D10CCA2C7E = False" "expo_of 0x3F9F06D10CCA2C7E = Suc 1016" "mag 0x3F9F06D10CCA2C7E = 8733219210538110 * 2 ^ 1016"
proof -
  show "sign_of 0x3F9F06D10CCA2C7E = False" by (simp add: sign_of_def)
  show e: "expo_of 0x3F9F06D10CCA2C7E = Suc 1016" by (simp add: expo_of_def)
  show "mag 0x3F9F06D10CCA2C7E = 8733219210538110 * 2 ^ 1016" by (rule mag_eqI[OF e]) (simp add: frac_of_def)
qed

lemma fields_Q0:
  "sign_of 0x3EC92EB6BC365FA0 = False" "expo_of 0x3EC92EB6BC365FA0 = Suc 1003" "mag 0x3EC92EB6BC365FA0 = 7088236794372000 * 2 ^ 1003"
proof -
  show "sign_of 0x3EC92EB6BC365FA0 = False" by (simp add: sign_of_def)
  show e: "expo_of 0x3EC92EB6BC365FA0 = Suc 1003" by (simp add: expo_of_def)
  show "mag 0x3EC92EB6BC365FA0 = 7088236794372000 * 2 ^ 1003" by (rule mag_eqI[OF e]) (simp add: frac_of_def)
qed

lemma fields_Q1:
  "sign_of 0x3F64AE39B508B6C0 = False" "expo_of 0x3F64AE39B508B6C0 = Suc 1013" "mag 0x3F64AE39B508B6C0 = 5821062407829184 * 2 ^ 1013"
proof -
  show "sign_of 0x3F64AE39B508B6C0 = False" by (simp add: sign_of_def)
  show e: "expo_of 0x3F64AE39B508B6C0 = Suc 1013" by (simp add: expo_of_def)
  show "mag 0x3F64AE39B508B6C0 = 5821062407829184 * 2 ^ 1013" by (rule mag_eqI[OF e]) (simp add: frac_of_def)
qed

lemma fields_Q2:
  "sign_of 0x3FCD17099887E074 = False" "expo_of 0x3FCD17099887E074 = Suc 1019" "mag 0x3FCD17099887E074 = 8188104305795188 * 2 ^ 1019"
proof -
  show "sign_of 0x3FCD17099887E074 = False" by (simp add: sign_of_def)
  show e: "expo_of 0x3FCD17099887E074 = Suc 1019" by (simp add: expo_of_def)
  show "mag 0x3FCD17099887E074 = 8188104305795188 * 2 ^ 1019" by (rule mag_eqI[OF e]) (simp add: frac_of_def)
qed

lemma fields_Q3:
  "sign_of 0x4000000000000000 = False" "expo_of 0x4000000000000000 = Suc 1023" "mag 0x4000000000000000 = 4503599627370496 * 2 ^ 1023"
proof -
  show "sign_of 0x4000000000000000 = False" by (simp add: sign_of_def)
  show e: "expo_of 0x4000000000000000 = Suc 1023" by (simp add: expo_of_def)
  show "mag 0x4000000000000000 = 4503599627370496 * 2 ^ 1023" by (rule mag_eqI[OF e]) (simp add: frac_of_def)
qed

lemma one_p1: "dmul 0x3F2089CDD5E44BE8 0x3FB81AC80E677748 = 0x3EE8EA6378C27D01"
  by (rule dmul_eval[OF fields_P0 fields_xx, where s=False and e=1005 and k=7013112389729537 and c=52])
    (simp_all add: mk_double_def)

lemma fields_p1:
  "sign_of 0x3EE8EA6378C27D01 = False" "expo_of 0x3EE8EA6378C27D01 = Suc 1005" "mag 0x3EE8EA6378C27D01 = 7013112389729537 * 2 ^ 1005"
proof -
  show "sign_of 0x3EE8EA6378C27D01 = False" by (simp add: sign_of_def)
  show e: "expo_of 0x3EE8EA6378C27D01 = Suc 1005" by (simp add: expo_of_def)
  show "mag 0x3EE8EA6378C27D01 = 7013112389729537 * 2 ^ 1005" by (rule mag_eqI[OF e]) (simp add: frac_of_def)
qed

lemma one_p2: "dadd 0x3EE8EA6378C27D01 0x3F9F06D10CCA2C7E = 0x3F9F09EE593944CE"
  by (rule dadd_eval_r[OF fields_p1 fields_P1, where s=False and e=1016 and k=8736643581822158 and c=11 and a=1005 and dx=0 and dy=11 and S="17892646055571778817"])
    (simp_all add: mk_double_def)

lemma fields_p2:
  "sign_of 0x3F9F09EE593944CE = False" "expo_of 0x3F9F09EE593944CE = Suc 1016" "mag 0x3F9F09EE593944CE = 8736643581822158 * 2 ^ 1016"
proof -
  show "sign_of 0x3F9F09EE593944CE = False" by (simp add: sign_of_def)
  show e: "expo_of 0x3F9F09EE593944CE = Suc 1016" by (simp add: expo_of_def)
  show "mag 0x3F9F09EE593944CE = 8736643581822158 * 2 ^ 1016" by (rule mag_eqI[OF e]) (simp add: frac_of_def)
qed

lemma one_p3: "dmul 0x3F9F09EE593944CE 0x3FB81AC80E677748 = 0x3F67616CE09DD3B9"
  by (rule dmul_eval[OF fields_p2 fields_xx, where s=False and e=1013 and k=6581044717147065 and c=53])
    (simp_all add: mk_double_def)

lemma fields_p3:
  "sign_of 0x3F67616CE09DD3B9 = False" "expo_of 0x3F67616CE09DD3B9 = Suc 1013" "mag 0x3F67616CE09DD3B9 = 6581044717147065 * 2 ^ 1013"
proof -
  show "sign_of 0x3F67616CE09DD3B9 = False" by (simp add: sign_of_def)
  show e: "expo_of 0x3F67616CE09DD3B9 = Suc 1013" by (simp add: expo_of_def)
  show "mag 0x3F67616CE09DD3B9 = 6581044717147065 * 2 ^ 1013" by (rule mag_eqI[OF e]) (simp add: frac_of_def)
qed

lemma one_p4: "dadd 0x3F67616CE09DD3B9 0x3FF0000000000000 = 0x3FF00BB0B6704EEA"
  by (rule dadd_eval_r[OF fields_p3 fields_one, where s=False and e=1022 and k=4516453230333674 and c=9 and a=1013 and dx=0 and dy=9 and S="2312424053930841017"])
    (simp_all add: mk_double_def)

lemma fields_p4:
  "sign_of 0x3FF00BB0B6704EEA = False" "expo_of 0x3FF00BB0B6704EEA = Suc 1022" "mag 0x3FF00BB0B6704EEA = 4516453230333674 * 2 ^ 1022"
proof -
  show "sign_of 0x3FF00BB0B6704EEA = False" by (simp add: sign_of_def)
  show e: "expo_of 0x3FF00BB0B6704EEA = Suc 1022" by (simp add: expo_of_def)
  show "mag 0x3FF00BB0B6704EEA = 4516453230333674 * 2 ^ 1022" by (rule mag_eqI[OF e]) (simp add: frac_of_def)
qed

lemma one_p5: "dmul 0x3FF00BB0B6704EEA 0x3FD3A37A020B8C22 = 0x3FD3B1D34C186F9B"
  by (rule dmul_eval[OF fields_p4 fields_x2, where s=False and e=1020 and k=5543545630388123 and c=52])
    (simp_all add: mk_double_def)

lemma fields_p5:
  "sign_of 0x3FD3B1D34C186F9B = False" "expo_of 0x3FD3B1D34C186F9B = Suc 1020" "mag 0x3FD3B1D34C186F9B = 5543545630388123 * 2 ^ 1020"
proof -
  show "sign_of 0x3FD3B1D34C186F9B = False" by (simp add: sign_of_def)
  show e: "expo_of 0x3FD3B1D34C186F9B = Suc 1020" by (simp add: expo_of_def)
  show "mag 0x3FD3B1D34C186F9B = 5543545630388123 * 2 ^ 1020" by (rule mag_eqI[OF e]) (simp add: frac_of_def)
qed

lemma fastexp_px_one: "fastexp_px 0x3FD3A37A020B8C22 = 0x3FD3B1D34C186F9B"
  by (simp only: fastexp_px_def Let_def dec_lit_P0 dec_lit_P1 dec_lit_P2 one_xx one_p1 one_p2 one_p3 one_p4 one_p5)

lemma one_q1: "dmul 0x3EC92EB6BC365FA0 0x3FB81AC80E677748 = 0x3E92F81C70EDA866"
  by (rule dmul_eval[OF fields_Q0 fields_xx, where s=False and e=1000 and k=5339350618187878 and c=53])
    (simp_all add: mk_double_def)

lemma fields_q1:
  "sign_of 0x3E92F81C70EDA866 = False" "expo_of 0x3E92F81C70EDA866 = Suc 1000" "mag 0x3E92F81C70EDA866 = 5339350618187878 * 2 ^ 1000"
proof -
  show "sign_of 0x3E92F81C70EDA866 = False" by (simp add: sign_of_def)
  show e: "expo_of 0x3E92F81C70EDA866 = Suc 1000" by (simp add: expo_of_def)
  show "mag 0x3E92F81C70EDA866 = 5339350618187878 * 2 ^ 1000" by (rule mag_eqI[OF e]) (simp add: frac_of_def)
qed

lemma one_q2: "dadd 0x3E92F81C70EDA866 0x3F64AE39B508B6C0 = 0x3F64AED175EC3E2D"
  by (rule dadd_eval_r[OF fields_q1 fields_Q1, where s=False and e=1013 and k=5821714184027693 and c=13 and a=1000 and dx=0 and dy=13 and S="47691482595554863206"])
    (simp_all add: mk_double_def)

lemma fields_q2:
  "sign_of 0x3F64AED175EC3E2D = False" "expo_of 0x3F64AED175EC3E2D = Suc 1013" "mag 0x3F64AED175EC3E2D = 5821714184027693 * 2 ^ 1013"
proof -
  show "sign_of 0x3F64AED175EC3E2D = False" by (simp add: sign_of_def)
  show e: "expo_of 0x3F64AED175EC3E2D = Suc 1013" by (simp add: expo_of_def)
  show "mag 0x3F64AED175EC3E2D = 5821714184027693 * 2 ^ 1013" by (rule mag_eqI[OF e]) (simp add: frac_of_def)
qed

lemma one_q3: "dmul 0x3F64AED175EC3E2D 0x3FB81AC80E677748 = 0x3F2F28D8E11AF60E"
  by (rule dmul_eval[OF fields_q2 fields_xx, where s=False and e=1009 and k=8770636232717838 and c=52])
    (simp_all add: mk_double_def)

lemma fields_q3:
  "sign_of 0x3F2F28D8E11AF60E = False" "expo_of 0x3F2F28D8E11AF60E = Suc 1009" "mag 0x3F2F28D8E11AF60E = 8770636232717838 * 2 ^ 1009"
proof -
  show "sign_of 0x3F2F28D8E11AF60E = False" by (simp add: sign_of_def)
  show e: "expo_of 0x3F2F28D8E11AF60E = Suc 1009" by (simp add: expo_of_def)
  show "mag 0x3F2F28D8E11AF60E = 8770636232717838 * 2 ^ 1009" by (rule mag_eqI[OF e]) (simp add: frac_of_def)
qed

lemma one_q4: "dadd 0x3F2F28D8E11AF60E 0x3FCD17099887E074 = 0x3FCD1ED3CEC02732"
  by (rule dadd_eval_r[OF fields_q3 fields_Q2, where s=False and e=1019 and k=8196669380241202 and c=10 and a=1009 and dx=0 and dy=10 and S="8393389445366990350"])
    (simp_all add: mk_double_def)

lemma fields_q4:
  "sign_of 0x3FCD1ED3CEC02732 = False" "expo_of 0x3FCD1ED3CEC02732 = Suc 1019" "mag 0x3FCD1ED3CEC02732 = 8196669380241202 * 2 ^ 1019"
proof -
  show "sign_of 0x3FCD1ED3CEC02732 = False" by (simp add: sign_of_def)
  show e: "expo_of 0x3FCD1ED3CEC02732 = Suc 1019" by (simp add: expo_of_def)
  show "mag 0x3FCD1ED3CEC02732 = 8196669380241202 * 2 ^ 1019" by (rule mag_eqI[OF e]) (simp add: frac_of_def)
qed

lemma one_q5: "dmul 0x3FCD1ED3CEC02732 0x3FB81AC80E677748 = 0x3F95EF7DF4EF8A27"
  by (rule dmul_eval[OF fields_q4 fields_xx, where s=False and e=1016 and k=6174298770213415 and c=53])
    (simp_all add: mk_double_def)

lemma fields_q5:
  "sign_of 0x3F95EF7DF4EF8A27 = False" "expo_of 0x3F95EF7DF4EF8A27 = Suc 1016" "mag 0x3F95EF7DF4EF8A27 = 6174298770213415 * 2 ^ 1016"
proof -
  show "sign_of 0x3F95EF7DF4EF8A27 = False" by (simp add: sign_of_def)
  show e: "expo_of 0x3F95EF7DF4EF8A27 = Suc 1016" by (simp add: expo_of_def)
  show "mag 0x3F95EF7DF4EF8A27 = 6174298770213415 * 2 ^ 1016" by (rule mag_eqI[OF e]) (simp add: frac_of_def)
qed

lemma one_q6: "dadd 0x3F95EF7DF4EF8A27 0x4000000000000000 = 0x40002BDEFBE9DF14"
  by (rule dadd_eval_r[OF fields_q5 fields_Q3, where s=False and e=1023 and k=4551836336512788 and c=7 and a=1016 and dx=0 and dy=7 and S="582635051073636903"])
    (simp_all add: mk_double_def)

lemma fields_q6:
  "sign_of 0x40002BDEFBE9DF14 = False" "expo_of 0x40002BDEFBE9DF14 = Suc 1023" "mag 0x40002BDEFBE9DF14 = 4551836336512788 * 2 ^ 1023"
proof -
  show "sign_of 0x40002BDEFBE9DF14 = False" by (simp add: sign_of_def)
  show e: "expo_of 0x40002BDEFBE9DF14 = Suc 1023" by (simp add: expo_of_def)
  show "mag 0x40002BDEFBE9DF14 = 4551836336512788 * 2 ^ 1023" by (rule mag_eqI[OF e]) (simp add: frac_of_def)
qed

lemma fastexp_qx_one: "fastexp_qx 0x3FD3A37A020B8C22 = 0x40002BDEFBE9DF14"
  by (simp only: fastexp_qx_def Let_def dec_lit_Q0 dec_lit_Q1 dec_lit_Q2 dec_lit_Q3 one_xx one_q1 one_q2 one_q3 one_q4 one_q5 one_q6)

lemma one_d: "dsub 0x40002BDEFBE9DF14 0x3FD3B1D34C186F9B = 0x3FFB6B4924CDA241"
  by (rule dsub_eval_r[OF fields_q6 fields_p5, where s=False and e=1022 and k=7717786265428545 and c=2 and a=1020 and dx=3 and dy=0 and S="30871145061714181"])
    (simp_all add: mk_double_def)

lemma fields_d:
  "sign_of 0x3FFB6B4924CDA241 = False" "expo_of 0x3FFB6B4924CDA241 = Suc 1022" "mag 0x3FFB6B4924CDA241 = 7717786265428545 * 2 ^ 1022"
proof -
  show "sign_of 0x3FFB6B4924CDA241 = False" by (simp add: sign_of_def)
  show e: "expo_of 0x3FFB6B4924CDA241 = Suc 1022" by (simp add: expo_of_def)
  show "mag 0x3FFB6B4924CDA241 = 7717786265428545 * 2 ^ 1022" by (rule mag_eqI[OF e]) (simp add: frac_of_def)
qed

lemma one_r: "ddiv 0x3FD3B1D34C186F9B 0x3FFB6B4924CDA241 = 0x3FC6FC2A2C515DA7"
  by (rule ddiv_eval[OF fields_p5 fields_d, where s=False and e=1019 and k=6469707549990311 and c=53])
    (simp_all add: mk_double_def)

lemma fields_r:
  "sign_of 0x3FC6FC2A2C515DA7 = False" "expo_of 0x3FC6FC2A2C515DA7 = Suc 1019" "mag 0x3FC6FC2A2C515DA7 = 6469707549990311 * 2 ^ 1019"
proof -
  show "sign_of 0x3FC6FC2A2C515DA7 = False" by (simp add: sign_of_def)
  show e: "expo_of 0x3FC6FC2A2C515DA7 = Suc 1019" by (simp add: expo_of_def)
  show "mag 0x3FC6FC2A2C515DA7 = 6469707549990311 * 2 ^ 1019" by (rule mag_eqI[OF e]) (simp add: frac_of_def)
qed

lemma one_2r: "dmul 0x4000000000000000 0x3FC6FC2A2C515DA7 = 0x3FD6FC2A2C515DA7"
  by (rule dmul_eval[OF fields_Q3 fields_r, where s=False and e=1020 and k=6469707549990311 and c=52])
    (simp_all add: mk_double_def)

lemma fields_r2:
  "sign_of 0x3FD6FC2A2C515DA7 = False" "expo_of 0x3FD6FC2A2C515DA7 = Suc 1020" "mag 0x3FD6FC2A2C515DA7 = 6469707549990311 * 2 ^ 1020"
proof -
  show "sign_of 0x3FD6FC2A2C515DA7 = False" by (simp add: sign_of_def)
  show e: "expo_of 0x3FD6FC2A2C515DA7 = Suc 1020" by (simp add: expo_of_def)
  show "mag 0x3FD6FC2A2C515DA7 = 6469707549990311 * 2 ^ 1020" by (rule mag_eqI[OF e]) (simp add: frac_of_def)
qed

lemma one_a: "dadd 0x3FF0000000000000 0x3FD6FC2A2C515DA7 = 0x3FF5BF0A8B14576A"
  by (rule dadd_eval_r[OF fields_one fields_r2, where s=False and e=1022 and k=6121026514868074 and c=2 and a=1020 and dx=2 and dy=0 and S="24484106059472295"])
    (simp_all add: mk_double_def)

lemma fields_a:
  "sign_of 0x3FF5BF0A8B14576A = False" "expo_of 0x3FF5BF0A8B14576A = Suc 1022" "mag 0x3FF5BF0A8B14576A = 6121026514868074 * 2 ^ 1022"
proof -
  show "sign_of 0x3FF5BF0A8B14576A = False" by (simp add: sign_of_def)
  show e: "expo_of 0x3FF5BF0A8B14576A = Suc 1022" by (simp add: expo_of_def)
  show "mag 0x3FF5BF0A8B14576A = 6121026514868074 * 2 ^ 1022" by (rule mag_eqI[OF e]) (simp add: frac_of_def)
qed

lemma one_res: "dmul 0x3FF5BF0A8B14576A 0x4000000000000000 = 0x4005BF0A8B14576A"
  by (rule dmul_eval[OF fields_a fields_Q3, where s=False and e=1023 and k=6121026514868074 and c=52])
    (simp_all add: mk_double_def)

lemma fastexp_r_one: "ddiv 0x3FD3B1D34C186F9B (dsub 0x40002BDEFBE9DF14 0x3FD3B1D34C186F9B) = 0x3FC6FC2A2C515DA7"
  by (simp only: one_d one_r)

lemma fastexp_scale_one:
  "dmul (dadd (dec_lit 10 (- 1)) (dmul (dec_lit 20 (- 1)) 0x3FC6FC2A2C515DA7)) 0x4000000000000000 = 0x4005BF0A8B14576A"
  by (simp only: dec_lit_one' dec_lit_two one_2r one_a one_res)

section \<open>Claims about fastexp\<close>

lemma fastexp_in_range:
  assumes "\<not> is_nan x" "\<not> dlt MAXLOG x" "\<not> dlt x MINLOG"
  shows "\<exists>n. fastexp_n x = Some n \<and> - 1022 \<le> n \<and> n \<le> 1023
      \<and> fastexp_pow2 n = Some (mk_double False (nat (n + 1023)) 0)
      \<and> fastexp x = Some (dmul (dadd (dec_lit 10 (- 1))
            (dmul (dec_lit 20 (- 1)) (fastexp_r (fastexp_reduce x n))))
            (mk_double False (nat (n + 1023)) 0))"
proof -
  obtain n where n: "fastexp_n x = Some n" "- 1022 \<le> n" "n \<le> 1023"
    using fastexp_n_range[OF assms] by blast
  have p: "fastexp_pow2 n = Some (mk_double False (nat (n + 1023)) 0)"
    by (rule fastexp_pow2_bits) (use n in simp_all)
  have "fastexp x = Some (dmul (dadd (dec_lit 10 (- 1))
            (dmul (dec_lit 20 (- 1)) (fastexp_r (fastexp_reduce x n))))
            (mk_double False (nat (n + 1023)) 0))"
    using assms(2,3) by (simp add: fastexp_def n(1) p Let_def)
  then show ?thesis using n p by blast
qed

lemma fastexp_nan: "is_nan x \<Longrightarrow> fastexp x = None"
  by (simp add: fastexp_def dlt_def fastexp_n_nan)

lemma fastexp_defined: "\<not> is_nan x \<Longrightarrow> fastexp x \<noteq> None"
proof -
  assume n: "\<not> is_nan x"
  show ?thesis
  proof (cases "dlt MAXLOG x")
    case True
    then show ?thesis by (simp add: fastexp_above)
  next
    case a: False
    show ?thesis
    proof (cases "dlt x MINLOG")
      case True
      then show ?thesis by (simp add: fastexp_below)
    next
      case False
      then show ?thesis using fastexp_in_range[OF n a False] by auto
    qed
  qed
qed

text \<open>C1, amended: for every \<open>x\<close> with \<open>MAXLOG < x\<close>, \<open>fastexp(x)\<close> returns the constant
  the source names \<open>INFINITY\<close>, the literal \<open>1.79769313486231570815E308\<close>, which is the
  largest finite double (exponent field 2046, all fraction bits set) and no infinity;
  for every \<open>x < MINLOG\<close> it returns \<open>0.0\<close>.\<close>

theorem fastexp_clamp:
  "(dlt MAXLOG x \<longrightarrow> fastexp x = Some INFINITY)
   \<and> (dlt x MINLOG \<longrightarrow> fastexp x = Some (dec_lit 0 0))
   \<and> INFINITY = mk_double False 2046 (2 ^ 52 - 1) \<and> is_finite INFINITY \<and> INFINITY \<noteq> dinf False"
  using fastexp_above[of x] fastexp_below[of x] INFINITY_finite by blast

theorem fastexp_clamp_witness:
  "dlt MAXLOG (dec_lit 709 0) \<and> fastexp (dec_lit 709 0) = Some INFINITY
   \<and> dlt (dneg (dec_lit 709 0)) MINLOG \<and> fastexp (dneg (dec_lit 709 0)) = Some (dec_lit 0 0)"
  using fastexp_clamp[of "dec_lit 709 0"] fastexp_clamp[of "dneg (dec_lit 709 0)"]
    dlt_MAXLOG_709 dlt_neg709_MINLOG by blast

theorem fastexp_709_not_infinity:
  "dlt MAXLOG (dec_lit 709 0) \<and> fastexp (dec_lit 709 0) \<noteq> Some (dinf False)"
  using dlt_MAXLOG_709 fastexp_above[OF dlt_MAXLOG_709] INFINITY_finite(4) by simp

text \<open>C2: the range reduction is meant to compute \<open>n = round(x * LOG2E)\<close>. At
  \<open>x = -1.0\<close> the product is \<open>-1.4426950408889634\<close>, whose nearest integer is \<open>-1\<close>, but
  the source adds \<open>0.5\<close> and converts with \<open>(int)\<close>, which truncates \<open>-0.9426950408889634\<close>
  toward zero: \<open>n = 0\<close>.\<close>

theorem fastexp_n_truncates:
  "fastexp_n (dneg (dec_lit 1 0)) = Some 0 \<and> spec_fastexp_n (dneg (dec_lit 1 0)) = - 1"
  using fastexp_n_neg_one spec_fastexp_n_neg_one by simp

text \<open>C4: for every input within the clamp bounds (\<open>MINLOG \<le> x \<le> MAXLOG\<close>, so no NaN),
  \<open>fastexp\<close> returns \<open>(1 + 2r) * 2^n\<close>, where \<open>n\<close> is the integer of the range reduction,
  \<open>r = px / (qx - px)\<close> with \<open>px\<close> and \<open>qx\<close> the two polynomials on the reduced
  argument, and the factor is the double read back from the union: sign 0, biased
  exponent field \<open>n + 1023\<close> (between 1 and 2046), zero fraction, whose value is
  exactly \<open>2^n\<close> (\<open>2^(n + 1074)\<close> units of \<open>2^-1074\<close>).\<close>

theorem fastexp_reconstruction:
  assumes "\<not> is_nan x" and "\<not> dlt MAXLOG x" and "\<not> dlt x MINLOG"
  shows "\<exists>n px qx r. fastexp_n x = Some n \<and> - 1022 \<le> n \<and> n \<le> 1023
      \<and> fastexp_pow2 n = Some (mk_double False (nat (n + 1023)) 0)
      \<and> sign_of (mk_double False (nat (n + 1023)) 0) = False
      \<and> expo_of (mk_double False (nat (n + 1023)) 0) = nat (n + 1023)
      \<and> frac_of (mk_double False (nat (n + 1023)) 0) = 0
      \<and> mag (mk_double False (nat (n + 1023)) 0) = 2 ^ nat (n + 1074)
      \<and> px = fastexp_px (fastexp_reduce x n)
      \<and> qx = fastexp_qx (fastexp_reduce x n)
      \<and> r = ddiv px (dsub qx px)
      \<and> fastexp x = Some (dmul (dadd (dec_lit 10 (- 1)) (dmul (dec_lit 20 (- 1)) r))
            (mk_double False (nat (n + 1023)) 0))"
proof -
  obtain n where n: "fastexp_n x = Some n" "- 1022 \<le> n" "n \<le> 1023"
    and p: "fastexp_pow2 n = Some (mk_double False (nat (n + 1023)) 0)"
    and f: "fastexp x = Some (dmul (dadd (dec_lit 10 (- 1))
            (dmul (dec_lit 20 (- 1)) (fastexp_r (fastexp_reduce x n))))
            (mk_double False (nat (n + 1023)) 0))"
    using fastexp_in_range[OF assms] by blast
  have b: "1 \<le> n + 1023" "n + 1023 < 2047" using n by simp_all
  note F = pow2_fields[OF b]
  define px where "px = fastexp_px (fastexp_reduce x n)"
  define qx where "qx = fastexp_qx (fastexp_reduce x n)"
  have r: "fastexp_r (fastexp_reduce x n) = ddiv px (dsub qx px)"
    unfolding px_def qx_def by (simp only: fastexp_r_def Let_def)
  have f': "fastexp x = Some (dmul (dadd (dec_lit 10 (- 1)) (dmul (dec_lit 20 (- 1)) (ddiv px (dsub qx px))))
            (mk_double False (nat (n + 1023)) 0))"
    using f unfolding r .
  show ?thesis
    by (rule exI[of _ n], rule exI[of _ px], rule exI[of _ qx], rule exI[of _ "ddiv px (dsub qx px)"])
      (intro conjI n p F px_def qx_def refl f')
qed

lemma fastexp_n_one: "fastexp_n (dec_lit 1 0) = Some 1"
proof -
  have nl: "\<not> is_nan LOG2E" by (rule consts_not_nan)
  have a: "dmul LOG2E (dec_lit 1 0) = LOG2E"
    unfolding dmul_commute[of LOG2E] by (rule dmul_one_left[OF nl])
  have s: "sval LOG2E + sval (dec_lit 5 (- 1)) = 8749120662242046 * 2 ^ (1022 + 0)"
    by (simp add: sval_def LOG2E_fields mag_LOG2E half_fields mag_half)
  have r: "round_double False (8749120662242046 * 2 ^ (1022 + 0)) 1 =
      mk_double False (1022 + 1) (8749120662242046 - 2 ^ 52)"
    by (rule round_double_normal_eqI2[where k=8749120662242046]) simp_all
  have nz: "(8749120662242046 * 2 ^ (1022 + 0)) \<noteq> (0::int)"
    "\<not> (8749120662242046 * 2 ^ (1022 + 0)) < (0::int)"
    "\<bar>8749120662242046 * 2 ^ (1022 + 0)\<bar> = (8749120662242046 * 2 ^ (1022 + 0) :: int)"
    by (simp_all del: power_numeral)
  have d: "dadd LOG2E (dec_lit 5 (- 1)) = mk_double False (1022 + 1) (8749120662242046 - 2 ^ 52)"
    unfolding dadd_def Let_def s using consts_not_nan nz r by (simp del: power_numeral)
  define u where "u = mk_double False (Suc 1022) (8749120662242046 - 2 ^ 52)"
  have f: "expo_of u = Suc 1022" "mag u = 8749120662242046 * 2 ^ 1022" "sign_of u = False"
    unfolding u_def by (rule mag_mk_normal; simp)+
  have "int_of_double u = Some 1"
    by (simp add: int_of_double_def f Let_def)
  then show ?thesis
    unfolding fastexp_n_def a d u_def by simp
qed

lemma one_in_range: "\<not> is_nan (dec_lit 1 0)" "\<not> dlt MAXLOG (dec_lit 1 0)" "\<not> dlt (dec_lit 1 0) MINLOG"
proof -
  show "\<not> is_nan (dec_lit 1 0)" by (simp add: is_nan_def one_fields)
  have s: "sval (dec_lit 1 0) = 2 ^ 1074" by (simp add: sval_def one_fields mag_one)
  show "\<not> dlt MAXLOG (dec_lit 1 0)"
    unfolding dlt_def sval_MAXLOG mag_MAXLOG s by simp
  show "\<not> dlt (dec_lit 1 0) MINLOG"
    unfolding dlt_def sval_MINLOG mag_MAXLOG s by simp
qed

theorem fastexp_reconstruction_witness:
  "fastexp_n (dec_lit 1 0) = Some 1
   \<and> fastexp_pow2 1 = Some 0x4000000000000000
   \<and> sign_of 0x4000000000000000 = False \<and> expo_of 0x4000000000000000 = 1024
   \<and> frac_of 0x4000000000000000 = 0
   \<and> fastexp_reduce (dec_lit 1 0) 1 = 0x3FD3A37A020B8C22
   \<and> fastexp_px 0x3FD3A37A020B8C22 = 0x3FD3B1D34C186F9B
   \<and> fastexp_qx 0x3FD3A37A020B8C22 = 0x40002BDEFBE9DF14
   \<and> ddiv 0x3FD3B1D34C186F9B (dsub 0x40002BDEFBE9DF14 0x3FD3B1D34C186F9B) = 0x3FC6FC2A2C515DA7
   \<and> fastexp (dec_lit 1 0) = Some 0x4005BF0A8B14576A"
proof -
  from fastexp_reconstruction[OF one_in_range] obtain n px qx r where
    n: "fastexp_n (dec_lit 1 0) = Some n"
    and p: "fastexp_pow2 n = Some (mk_double False (nat (n + 1023)) 0)"
    and px: "px = fastexp_px (fastexp_reduce (dec_lit 1 0) n)"
    and qx: "qx = fastexp_qx (fastexp_reduce (dec_lit 1 0) n)"
    and r: "r = ddiv px (dsub qx px)"
    and f: "fastexp (dec_lit 1 0) = Some (dmul (dadd (dec_lit 10 (- 1)) (dmul (dec_lit 20 (- 1)) r))
            (mk_double False (nat (n + 1023)) 0))"
    by (elim exE conjE)
  have n1: "n = 1" using n by (simp add: fastexp_n_one)
  have pw: "mk_double False (nat (1 + 1023)) 0 = 0x4000000000000000" by (simp add: mk_double_def)
  have px1: "px = 0x3FD3B1D34C186F9B" unfolding px n1 by (simp only: fastexp_reduce_one fastexp_px_one)
  have qx1: "qx = 0x40002BDEFBE9DF14" unfolding qx n1 by (simp only: fastexp_reduce_one fastexp_qx_one)
  have r1: "r = 0x3FC6FC2A2C515DA7" unfolding r px1 qx1 by (rule fastexp_r_one)
  have "fastexp (dec_lit 1 0) = Some 0x4005BF0A8B14576A"
    unfolding f r1 n1 pw by (simp only: fastexp_scale_one)
  moreover have "fastexp_pow2 1 = Some 0x4000000000000000" using p unfolding n1 pw .
  moreover have "sign_of 0x4000000000000000 = False" "expo_of 0x4000000000000000 = 1024"
    "frac_of 0x4000000000000000 = 0"
    by (simp_all add: sign_of_def expo_of_def frac_of_def)
  ultimately show ?thesis
    by (simp only: fastexp_n_one fastexp_reduce_one fastexp_px_one fastexp_qx_one fastexp_r_one simp_thms)
qed

text \<open>C3: for a vector \<open>x\<close> of \<open>n \<ge> 0\<close> elements, a call of \<open>vecexp\<close> that returns has
  set every \<open>x[i]\<close> to exactly \<open>1.0\<close> where the old \<open>x[i] == 0.\<close> held, and to
  \<open>fastexp(x[i])\<close> elsewhere; the call returns whenever no element is a NaN (for a NaN
  the cast in \<open>fastexp\<close> is undefined); and on a vector of zeros it returns the vector
  whose every element is exactly \<open>1.0\<close>.\<close>

theorem vecexp_elementwise:
  assumes "vec_at m x xs" and "length xs = nat n" and "0 \<le> n"
  shows "(\<forall>m'. vecexp m x n = Some m' \<longrightarrow>
            (\<forall>i<length xs. m' (x + i) =
               (if deq (xs ! i) (dec_lit 0 0) then Some (dec_lit 1 0) else fastexp (xs ! i))))
      \<and> ((\<forall>v\<in>set xs. \<not> is_nan v) \<longrightarrow> vecexp m x n \<noteq> None)
      \<and> ((\<forall>v\<in>set xs. deq v (dec_lit 0 0)) \<longrightarrow>
            (\<exists>m'. vecexp m x n = Some m' \<and> vec_at m' x (replicate (length xs) (dec_lit 1 0))))"
proof (intro conjI)
  show "\<forall>m'. vecexp m x n = Some m' \<longrightarrow>
            (\<forall>i<length xs. m' (x + i) =
               (if deq (xs ! i) (dec_lit 0 0) then Some (dec_lit 1 0) else fastexp (xs ! i)))"
  proof (rule allI, rule impI)
    fix m' assume "vecexp m x n = Some m'"
    then obtain calls where r: "vecexp_loop m x n 0 [] = Some (m', calls)"
      by (auto simp: vecexp_def)
    show "\<forall>i<length xs. m' (x + i) =
        (if deq (xs ! i) (dec_lit 0 0) then Some (dec_lit 1 0) else fastexp (xs ! i))"
      by (rule vecexp_result(1)[OF assms(1,2) r])
  qed
  show "(\<forall>v\<in>set xs. \<not> is_nan v) \<longrightarrow> vecexp m x n \<noteq> None"
  proof (rule impI)
    assume "\<forall>v\<in>set xs. \<not> is_nan v"
    then have "\<forall>v\<in>set xs. deq v (dec_lit 0 0) \<or> fastexp v \<noteq> None"
      using fastexp_defined by blast
    then have "vecexp_loop m x n 0 [] \<noteq> None" by (rule vecexp_defined[OF assms(1,2)])
    then show "vecexp m x n \<noteq> None" by (simp add: vecexp_def)
  qed
  show "(\<forall>v\<in>set xs. deq v (dec_lit 0 0)) \<longrightarrow>
            (\<exists>m'. vecexp m x n = Some m' \<and> vec_at m' x (replicate (length xs) (dec_lit 1 0)))"
  proof (rule impI)
    assume z: "\<forall>v\<in>set xs. deq v (dec_lit 0 0)"
    then have "\<forall>v\<in>set xs. deq v (dec_lit 0 0) \<or> fastexp v \<noteq> None" by blast
    then have "vecexp_loop m x n 0 [] \<noteq> None" by (rule vecexp_defined[OF assms(1,2)])
    then obtain m' calls where r: "vecexp_loop m x n 0 [] = Some (m', calls)" by auto
    have e: "\<forall>i<length xs. m' (x + i) =
        (if deq (xs ! i) (dec_lit 0 0) then Some (dec_lit 1 0) else fastexp (xs ! i))"
      by (rule vecexp_result(1)[OF assms(1,2) r])
    have "vec_at m' x (replicate (length xs) (dec_lit 1 0))"
      unfolding vec_at_def using e z by simp
    moreover have "vecexp m x n = Some m'" by (simp add: vecexp_def r)
    ultimately show "\<exists>m'. vecexp m x n = Some m' \<and> vec_at m' x (replicate (length xs) (dec_lit 1 0))"
      by blast
  qed
qed

theorem vecexp_elementwise_witness:
  "\<exists>m'. vecexp [0 \<mapsto> 0, 1 \<mapsto> dzero True] 0 2 = Some m'
      \<and> m' 0 = Some (dec_lit 1 0) \<and> m' 1 = Some (dec_lit 1 0)"
proof -
  let ?M = "[0 \<mapsto> 0, 1 \<mapsto> dzero True]"
  have v: "vec_at ?M 0 [0, dzero True]"
    by (simp add: vec_at_def nth_Cons split: nat.split)
  have z: "\<forall>v\<in>set [0, dzero True]. deq v (dec_lit 0 0)"
    using deq_pos_zero deq_neg_zero by simp
  note T = vecexp_elementwise[OF v, of 2]
  have "\<exists>m'. vecexp ?M 0 2 = Some m' \<and> vec_at m' 0 (replicate (length [0::double, dzero True]) (dec_lit 1 0))"
    using T z by simp
  then obtain m' where r: "vecexp ?M 0 2 = Some m'"
    and a: "vec_at m' 0 (replicate (length [0::double, dzero True]) (dec_lit 1 0))"
    by (elim exE conjE)
  have "m' (0 + 0) = Some (dec_lit 1 0)"
    using a[unfolded vec_at_def, THEN spec, of 0] by simp
  moreover have "m' (0 + 1) = Some (dec_lit 1 0)"
    using a[unfolded vec_at_def, THEN spec, of 1] by simp
  ultimately show ?thesis using r by auto
qed

end
